theory Spec2Isabelle
  imports Main "HOL-Library.Word" "HOL-Library.Multiset" "HOL-Library.Sublist"
begin

unbundle bit_operations_syntax

section \<open>OpLog (include/oplog.hh): data model\<close>

type_synonym u64 = "64 word"
type_synonym u32 = "32 word"

text \<open>
  \<^verbatim>\<open>tsc_logger::op\<close>: a timestamp and a type-erased callable. \<^verbatim>\<open>run()\<close> calls the
  callable; what the callable does belongs to the caller, so an executed operation is
  recorded by appending it to the trace \<open>ran\<close> of the object below.
\<close>

datatype 'cb op = Op (tsc: u64) (cb: 'cb)

text \<open>
  \<^verbatim>\<open>class tsc_logger\<close>: the vector \<^verbatim>\<open>ops_\<close>. A member \<^verbatim>\<open>x_\<close> of the source is the
  field \<open>x\<close> here.
\<close>

record 'cb tsc_logger =
  ops :: "'cb op list"

datatype error = AssertFailed | OutOfRange

subsection \<open>The C++ standard library, as far as the code relies on it\<close>

text \<open>
  \<^verbatim>\<open>std::sort\<close> and \<^verbatim>\<open>std::priority_queue\<close> are not code of this repository. They are
  parameters of the model: \<open>std_sort cmp xs\<close> is what \<^verbatim>\<open>std::sort(begin, end, cmp)\<close> leaves
  in the range, and \<open>pq_top cmp h\<close> is what \<^verbatim>\<open>top()\<close> returns for a queue that holds the
  indices \<open>h\<close> under the comparator \<open>cmp\<close>.
\<close>

record 'cb stdlib =
  std_sort :: "('cb op \<Rightarrow> 'cb op \<Rightarrow> bool) \<Rightarrow> 'cb op list \<Rightarrow> 'cb op list"
  pq_top :: "(nat \<Rightarrow> nat \<Rightarrow> bool) \<Rightarrow> nat list \<Rightarrow> nat"

subsection \<open>tsc\_logger\<close>

text \<open>
  \<^verbatim>\<open>static uint64_t rdtscp() { if (cpuid::features().rdtscp) return rdtscp();
  return rdtsc_serialized(); }\<close>
  Inside the class the name \<^verbatim>\<open>rdtscp\<close> is the member itself, so the first branch is a
  call of this very function. \<open>feat\<close> is \<^verbatim>\<open>cpuid::features().rdtscp\<close>, \<open>now\<close> the value
  \<^verbatim>\<open>rdtsc_serialized()\<close> would return. Not returning is the value \<open>None\<close>.
\<close>

partial_function (option) rdtscp :: "bool \<Rightarrow> u64 \<Rightarrow> u64 option" where
  "rdtscp feat now = (if feat then rdtscp feat now else Some now)"

declare rdtscp.simps [code]

text \<open>\<^verbatim>\<open>push(cb)\<close>: \<^verbatim>\<open>ops_.push_back(make_unique<op_inst<CB>>(rdtscp(), cb))\<close>.\<close>

definition push :: "bool \<Rightarrow> u64 \<Rightarrow> 'cb \<Rightarrow> 'cb tsc_logger \<Rightarrow> 'cb tsc_logger option" where
  "push feat now c l =
     (case rdtscp feat now of
        None \<Rightarrow> None
      | Some t \<Rightarrow> Some (l\<lparr>ops := ops l @ [Op t c]\<rparr>))"

text \<open>\<^verbatim>\<open>push_with_tsc(cb)\<close>: the timestamp is \<^verbatim>\<open>cb.get_tsc()\<close>, here the argument \<open>t\<close>.\<close>

definition push_with_tsc :: "u64 \<Rightarrow> 'cb \<Rightarrow> 'cb tsc_logger \<Rightarrow> 'cb tsc_logger" where
  "push_with_tsc t c l = l\<lparr>ops := ops l @ [Op t c]\<rparr>"

definition reset :: "'cb tsc_logger \<Rightarrow> 'cb tsc_logger" where
  "reset l = l\<lparr>ops := []\<rparr>"

definition compare_tsc :: "'cb op \<Rightarrow> 'cb op \<Rightarrow> bool" where
  "compare_tsc op1 op2 = (tsc op1 < tsc op2)"

text \<open>\<^verbatim>\<open>sort_ops()\<close>: \<^verbatim>\<open>std::sort(ops_.begin(), ops_.end(), compare_tsc)\<close>.\<close>

definition sort_ops :: "'cb stdlib \<Rightarrow> 'cb tsc_logger \<Rightarrow> 'cb tsc_logger" where
  "sort_ops L l = l\<lparr>ops := std_sort L compare_tsc (ops l)\<rparr>"

text \<open>
  \<^verbatim>\<open>ops_before_max_tsc(max_tsc)\<close>: the loop walks from \<^verbatim>\<open>begin()\<close> and stops at the first
  operation whose timestamp is not below \<open>max_tsc\<close>; the iterator it returns is given as
  its distance from \<^verbatim>\<open>begin()\<close>.
\<close>

fun scan_before :: "'cb op list \<Rightarrow> u64 \<Rightarrow> nat" where
  "scan_before [] max_tsc = 0"
| "scan_before (x # xs) max_tsc = (if max_tsc \<le> tsc x then 0 else Suc (scan_before xs max_tsc))"

definition ops_before_max_tsc :: "'cb tsc_logger \<Rightarrow> u64 \<Rightarrow> nat" where
  "ops_before_max_tsc l max_tsc = scan_before (ops l) max_tsc"

subsection \<open>What the standard promises of std::sort and std::priority\_queue\<close>

text \<open>
  \<^verbatim>\<open>std::sort\<close> leaves a permutation of the range in which no element compares less than
  an earlier one. It promises nothing about the order of equivalent elements.
\<close>

definition std_sort_ok :: "'cb stdlib \<Rightarrow> bool" where
  "std_sort_ok L \<longleftrightarrow>
     (\<forall>xs. mset (std_sort L compare_tsc xs) = mset xs \<and>
           sorted_wrt (\<lambda>a b. \<not> compare_tsc b a) (std_sort L compare_tsc xs))"

text \<open>
  \<^verbatim>\<open>top()\<close> of a non-empty queue is one of its elements, and no element of the queue is
  greater under the comparator (a strict ordering). Which of several greatest elements it
  is depends on the library.
\<close>

definition pq_top_ok :: "'cb stdlib \<Rightarrow> bool" where
  "pq_top_ok L \<longleftrightarrow>
     (\<forall>cmp h. h \<noteq> [] \<and> irreflp cmp \<and> transp cmp \<longrightarrow>
        pq_top L cmp h \<in> set h \<and> (\<forall>x \<in> set h. \<not> cmp (pq_top L cmp h) x))"

definition stdlib_ok :: "'cb stdlib \<Rightarrow> bool" where
  "stdlib_ok L \<longleftrightarrow> std_sort_ok L \<and> pq_top_ok L"

section \<open>logged\_object and its cache of per-CPU loggers\<close>

text \<open>
  \<^verbatim>\<open>struct way\<close>: the tag \<^verbatim>\<open>obj_\<close> (the address of the object the way is cached for, 0 for
  \<^verbatim>\<open>nullptr\<close>), the way's spinlock (\<open>True\<close> when held) and the embedded logger.
\<close>

record 'cb way =
  obj :: u64
  lock :: bool
  logger :: "'cb tsc_logger"

text \<open>
  \<^verbatim>\<open>logged_object<tsc_logger>\<close>: the static per-CPU \<^verbatim>\<open>cache_\<close> (CPU, then way number), the
  bitset \<^verbatim>\<open>cpus_\<close> (one bit per CPU, so \<^verbatim>\<open>NCPU\<close> is its length) and \<^verbatim>\<open>sync_lock_\<close>.
  \<open>ran\<close> is the trace of the operations whose \<^verbatim>\<open>run()\<close> has been called, oldest first: the
  materialized state of the object is what these calls made of it.
\<close>

record 'cb logged_object =
  cache :: "nat \<Rightarrow> nat \<Rightarrow> 'cb way"
  cpus :: "bool list"
  sync_lock :: bool
  ran :: "'cb op list"

record 'cb tsc_logged_object = "'cb logged_object" +
  pending :: "'cb tsc_logger list"

record mfs_tsc =
  tsc_value :: u64
  seq :: u32

record 'cb mfs_logged_object = "'cb tsc_logged_object" +
  mfs_start_tsc :: "nat \<Rightarrow> mfs_tsc"
  mfs_end_tsc :: "nat \<Rightarrow> mfs_tsc"

definition CACHE_SLOTS :: u64 where
  "CACHE_SLOTS = 4096"

text \<open>\<^verbatim>\<open>cache::hash_way(obj)\<close>, as the number of the way it points to.\<close>

definition hash_way :: "u64 \<Rightarrow> nat" where
  "hash_way this =
     (let wayno = this;
          wayno = wayno XOR (drop_bit 32 wayno XOR drop_bit 20 wayno XOR drop_bit 12 wayno);
          wayno = wayno XOR (drop_bit 7 wayno XOR drop_bit 4 wayno);
          wayno = wayno mod CACHE_SLOTS
      in unat wayno)"

text \<open>
  Modelled from the spec: \<^verbatim>\<open>spinlock::guard()\<close> (spinlock.hh is not among the sources;
  "Acquiring a spinlock may spin; no other blocking"). The model runs one thread, so a
  lock that is held stays held and the acquisition never returns.
\<close>

partial_function (option) spin_acquire :: "bool \<Rightarrow> bool option" where
  "spin_acquire held = (if held then spin_acquire held else Some True)"

declare spin_acquire.simps [code]

subsection \<open>tsc\_logged\_object: gathering\<close>

text \<open>\<^verbatim>\<open>flush_logger(l)\<close>: \<^verbatim>\<open>pending_.emplace_back(std::move(*l)); l->reset();\<close>\<close>

definition flush_logger ::
  "'cb tsc_logger \<Rightarrow> ('cb, 'z) tsc_logged_object_scheme
     \<Rightarrow> ('cb, 'z) tsc_logged_object_scheme \<times> 'cb tsc_logger" where
  "flush_logger l s = (s\<lparr>pending := pending s @ [l]\<rparr>, reset l)"

text \<open>
  The body of the gather loop of \<^verbatim>\<open>synchronize\<close> (and of \<^verbatim>\<open>wait_synchronize\<close>) for one CPU:
  take the way's lock, assert the tag, flush the logger, clear the CPU's bit.
\<close>

definition gather_cpu ::
  "u64 \<Rightarrow> nat \<Rightarrow> ('cb, 'z) tsc_logged_object_scheme
     \<Rightarrow> (error + ('cb, 'z) tsc_logged_object_scheme) option" where
  "gather_cpu this cpu s =
     (let w = cache s cpu (hash_way this) in
      case spin_acquire (lock w) of
        None \<Rightarrow> None
      | Some _ \<Rightarrow>
          if obj w \<noteq> this then Some (Inl AssertFailed)
          else (case flush_logger (logger w) s of
                  (s1, l') \<Rightarrow>
                    Some (Inr (s1\<lparr>cache := (cache s1)(cpu := (cache s1 cpu)(hash_way this := w\<lparr>logger := l'\<rparr>)),
                                   cpus := (cpus s1)[cpu := False]\<rparr>))))"

text \<open>
  \<^verbatim>\<open>for (auto cpu : cpus_)\<close>: the CPUs are visited in ascending order and the body runs
  for those whose bit is set when the iteration reaches them; \<open>any\<close> is the loop's flag.
\<close>

fun gather_from ::
  "u64 \<Rightarrow> nat list \<Rightarrow> ('cb, 'z) tsc_logged_object_scheme \<Rightarrow> bool
     \<Rightarrow> (error + ('cb, 'z) tsc_logged_object_scheme \<times> bool) option" where
  "gather_from this [] s any = Some (Inr (s, any))"
| "gather_from this (cpu # rest) s any =
     (if cpus s ! cpu
      then (case gather_cpu this cpu s of
              None \<Rightarrow> None
            | Some (Inl e) \<Rightarrow> Some (Inl e)
            | Some (Inr s') \<Rightarrow> gather_from this rest s' True)
      else gather_from this rest s any)"

definition gather_pass ::
  "u64 \<Rightarrow> ('cb, 'z) tsc_logged_object_scheme
     \<Rightarrow> (error + ('cb, 'z) tsc_logged_object_scheme \<times> bool) option" where
  "gather_pass this s = gather_from this [0..<length (cpus s)] s False"

subsection \<open>Facts about gathering\<close>

lemma spin_acquire_Some: "spin_acquire h = Some y \<Longrightarrow> \<not> h \<and> y"
  by (rule spin_acquire.raw_induct[where P = "\<lambda>h y. \<not> h \<and> y"]) (auto split: if_splits)

lemma spin_acquire_free: "spin_acquire False = Some True"
  by (subst spin_acquire.simps) simp

lemma spin_acquire_held: "spin_acquire True = None"
  using spin_acquire_Some[of True] by (cases "spin_acquire True") auto

lemma gather_cpu_Inr:
  "gather_cpu this cpu s = Some (Inr s') \<Longrightarrow>
     cpus s' = (cpus s)[cpu := False] \<and> sync_lock s' = sync_lock s \<and> ran s' = ran s \<and>
     pending s' = pending s @ [logger (cache s cpu (hash_way this))]"
  by (auto simp: gather_cpu_def flush_logger_def Let_def split: option.splits if_splits)

lemma gather_from_cpus:
  "gather_from this cs s any = Some (Inr (s', any')) \<Longrightarrow>
     length (cpus s') = length (cpus s) \<and>
     (\<forall>i < length (cpus s). cpus s' ! i = (cpus s ! i \<and> i \<notin> set cs)) \<and>
     (any' \<longleftrightarrow> any \<or> (\<exists>c \<in> set cs. cpus s ! c))"
proof (induction cs arbitrary: s any)
  case Nil
  then show ?case by simp
next
  case (Cons c cs)
  show ?case
  proof (cases "cpus s ! c")
    case False
    with Cons.prems have "gather_from this cs s any = Some (Inr (s', any'))" by simp
    from Cons.IH[OF this] have
      l: "length (cpus s') = length (cpus s)" and
      b: "\<And>i. i < length (cpus s) \<Longrightarrow> cpus s' ! i = (cpus s ! i \<and> i \<notin> set cs)" and
      a: "any' \<longleftrightarrow> any \<or> (\<exists>c \<in> set cs. cpus s ! c)" by blast+
    have "\<And>i. i < length (cpus s) \<Longrightarrow> cpus s' ! i = (cpus s ! i \<and> i \<notin> set (c # cs))"
      using b False by auto
    moreover have "any' \<longleftrightarrow> any \<or> (\<exists>x \<in> set (c # cs). cpus s ! x)"
      using a False by simp
    ultimately show ?thesis using l by blast
  next
    case True
    with Cons.prems obtain s1 where g: "gather_cpu this c s = Some (Inr s1)"
      and r: "gather_from this cs s1 True = Some (Inr (s', any'))"
      by (auto split: option.splits sum.splits)
    from gather_cpu_Inr[OF g] have c1: "cpus s1 = (cpus s)[c := False]" by simp
    from Cons.IH[OF r] have
      l: "length (cpus s') = length (cpus s1)" and
      b: "\<And>i. i < length (cpus s1) \<Longrightarrow> cpus s' ! i = (cpus s1 ! i \<and> i \<notin> set cs)" and
      a: "any'" by blast+
    have "cpus s' ! i = (cpus s ! i \<and> i \<notin> set (c # cs))" if "i < length (cpus s)" for i
      using b[of i] that c1 by (cases "i = c") simp_all
    moreover have "any' \<longleftrightarrow> any \<or> (\<exists>x \<in> set (c # cs). cpus s ! x)"
      using a True by simp
    ultimately show ?thesis using l c1 by simp
  qed
qed

text \<open>The CPUs whose bit is set in \<^verbatim>\<open>cpus_\<close>, in ascending order.\<close>

definition set_cpus :: "bool list \<Rightarrow> nat list" where
  "set_cpus b = filter (\<lambda>i. b ! i) [0..<length b]"

lemma gather_pass_cpus:
  assumes "gather_pass this s = Some (Inr (s', any'))"
  shows "length (cpus s') = length (cpus s)"
    and "set_cpus (cpus s') = []"
    and "any' \<longleftrightarrow> set_cpus (cpus s) \<noteq> []"
proof -
  from gather_from_cpus[OF assms[unfolded gather_pass_def]] have
    l: "length (cpus s') = length (cpus s)" and
    b: "\<And>i. i < length (cpus s) \<Longrightarrow> cpus s' ! i = (cpus s ! i \<and> i \<notin> set [0..<length (cpus s)])" and
    a: "any' \<longleftrightarrow> (\<exists>c \<in> set [0..<length (cpus s)]. cpus s ! c)" by blast+
  show "length (cpus s') = length (cpus s)" by (rule l)
  have "\<not> cpus s' ! i" if "i < length (cpus s')" for i
    using b[of i] l that by simp
  then show "set_cpus (cpus s') = []"
    unfolding set_cpus_def filter_empty_conv by simp
  show "any' \<longleftrightarrow> set_cpus (cpus s) \<noteq> []"
    unfolding a set_cpus_def filter_empty_conv by simp
qed

text \<open>
  The gather loop \<^verbatim>\<open>while (1) { bool any = false; for (auto cpu : cpus_) { ... any = true; }
  if (!any) break; barrier(); }\<close> of \<^verbatim>\<open>synchronize\<close> and \<^verbatim>\<open>wait_synchronize\<close>. Every
  pass clears the bits it visits, so the number of set bits is a measure.
\<close>

function gather_loop ::
  "u64 \<Rightarrow> ('cb, 'z) tsc_logged_object_scheme
     \<Rightarrow> (error + ('cb, 'z) tsc_logged_object_scheme) option" where
  "gather_loop this s =
     (case gather_pass this s of
        None \<Rightarrow> None
      | Some (Inl e) \<Rightarrow> Some (Inl e)
      | Some (Inr (s', any)) \<Rightarrow> if \<not> any then Some (Inr s') else gather_loop this s')"
  by pat_completeness auto
termination
proof (relation "measure (\<lambda>(this, s). length (set_cpus (cpus s)))")
  show "wf (measure (\<lambda>(this, s). length (set_cpus (cpus s))))" by simp
next
  fix this :: u64 and s :: "('cb, 'z) tsc_logged_object_scheme" and x2 x2a x1 x2b
  assume "gather_pass this s = Some x2" "x2 = Inr x2a" "(x1, x2b) = x2a" "\<not> \<not> x2b"
  then have "gather_pass this s = Some (Inr (x1, True))" by auto
  from gather_pass_cpus(2,3)[OF this]
  show "((this, x1), (this, s)) \<in> measure (\<lambda>(this, s). length (set_cpus (cpus s)))"
    by simp
qed

declare gather_loop.simps [simp del]

subsection \<open>tsc\_logged\_object: clear\_loggers and the destructor\<close>

text \<open>
  The body of the loop of \<^verbatim>\<open>clear_loggers\<close> for one CPU: take the way's lock, assert the
  tag, \<^verbatim>\<open>way->logger_.reset()\<close>. Unlike the gather loop it leaves \<^verbatim>\<open>cpus_\<close> alone.
\<close>

definition clear_cpu ::
  "u64 \<Rightarrow> nat \<Rightarrow> ('cb, 'z) tsc_logged_object_scheme
     \<Rightarrow> (error + ('cb, 'z) tsc_logged_object_scheme) option" where
  "clear_cpu this cpu s =
     (let w = cache s cpu (hash_way this) in
      case spin_acquire (lock w) of
        None \<Rightarrow> None
      | Some _ \<Rightarrow>
          if obj w \<noteq> this then Some (Inl AssertFailed)
          else Some (Inr (s\<lparr>cache := (cache s)(cpu := (cache s cpu)(hash_way this := w\<lparr>logger := reset (logger w)\<rparr>))\<rparr>)))"

fun clear_from ::
  "u64 \<Rightarrow> nat list \<Rightarrow> ('cb, 'z) tsc_logged_object_scheme \<Rightarrow> bool
     \<Rightarrow> (error + ('cb, 'z) tsc_logged_object_scheme \<times> bool) option" where
  "clear_from this [] s any = Some (Inr (s, any))"
| "clear_from this (cpu # rest) s any =
     (if cpus s ! cpu
      then (case clear_cpu this cpu s of
              None \<Rightarrow> None
            | Some (Inl e) \<Rightarrow> Some (Inl e)
            | Some (Inr s') \<Rightarrow> clear_from this rest s' True)
      else clear_from this rest s any)"

definition clear_pass ::
  "u64 \<Rightarrow> ('cb, 'z) tsc_logged_object_scheme
     \<Rightarrow> (error + ('cb, 'z) tsc_logged_object_scheme \<times> bool) option" where
  "clear_pass this s = clear_from this [0..<length (cpus s)] s False"

text \<open>
  The loop of \<^verbatim>\<open>clear_loggers\<close>, written like the gather loop. Nothing in it decreases, so
  it is a partial function: \<open>None\<close> is not returning.
\<close>

partial_function (option) clear_loop ::
  "u64 \<Rightarrow> ('cb, 'z) tsc_logged_object_scheme
     \<Rightarrow> (error + ('cb, 'z) tsc_logged_object_scheme) option" where
  "clear_loop this s =
     (case clear_pass this s of
        None \<Rightarrow> None
      | Some (Inl e) \<Rightarrow> Some (Inl e)
      | Some (Inr (s', any)) \<Rightarrow> if \<not> any then Some (Inr s') else clear_loop this s')"

declare clear_loop.simps [code]

text \<open>\<^verbatim>\<open>clear_loggers()\<close> holds \<^verbatim>\<open>sync_lock_\<close> for its duration.\<close>

definition clear_loggers ::
  "u64 \<Rightarrow> ('cb, 'z) tsc_logged_object_scheme
     \<Rightarrow> (error + ('cb, 'z) tsc_logged_object_scheme) option" where
  "clear_loggers this s =
     (case spin_acquire (sync_lock s) of
        None \<Rightarrow> None
      | Some held \<Rightarrow>
          (case clear_loop this (s\<lparr>sync_lock := held\<rparr>) of
             None \<Rightarrow> None
           | Some (Inl e) \<Rightarrow> Some (Inl e)
           | Some (Inr s') \<Rightarrow> Some (Inr (s'\<lparr>sync_lock := False\<rparr>))))"

text \<open>\<^verbatim>\<open>~tsc_logged_object() { pending_.clear(); clear_loggers(); }\<close>\<close>

definition destroy ::
  "u64 \<Rightarrow> ('cb, 'z) tsc_logged_object_scheme
     \<Rightarrow> (error + ('cb, 'z) tsc_logged_object_scheme) option" where
  "destroy this s = clear_loggers this (s\<lparr>pending := []\<rparr>)"

section \<open>flush\_finish and flush\_finish\_max\_timestamp\<close>

text \<open>
  A \<^verbatim>\<open>tsc_logger::op_iter\<close> points into the vector of one pending logger: it is the index
  of that logger in \<^verbatim>\<open>pending_\<close> and the offset in its \<^verbatim>\<open>ops_\<close>. \<^verbatim>\<open>struct pos\<close> of
  \<^verbatim>\<open>flush_finish\<close> has \<^verbatim>\<open>next\<close> and \<^verbatim>\<open>end\<close>; the one of \<^verbatim>\<open>flush_finish_max_timestamp\<close>
  has \<^verbatim>\<open>logger\<close> as well, a pointer into \<^verbatim>\<open>pending_\<close>, here the index.
\<close>

type_synonym op_iter = "nat \<times> nat"

record pos =
  next_it :: op_iter
  end_it :: op_iter

record mfs_pos = pos +
  pos_logger :: nat

text \<open>
  \<^verbatim>\<open>*it\<close>, whether \<^verbatim>\<open>it\<close> may be dereferenced, and \<^verbatim>\<open>++it\<close>. Moving an operation out of
  its slot (\<^verbatim>\<open>std::move(*posns[top].next)\<close>) leaves a slot that is never read again, so the
  vectors are left as they are during the merge.
\<close>

definition deref :: "'cb tsc_logger list \<Rightarrow> op_iter \<Rightarrow> 'cb op" where
  "deref pend it = ops (pend ! fst it) ! snd it"

definition in_range :: "'cb tsc_logger list \<Rightarrow> op_iter \<Rightarrow> bool" where
  "in_range pend it \<longleftrightarrow> fst it < length pend \<and> snd it < length (ops (pend ! fst it))"

definition incr :: "op_iter \<Rightarrow> op_iter" where
  "incr it = (fst it, Suc (snd it))"

text \<open>
  The lambda \<^verbatim>\<open>compare\<close>: \<^verbatim>\<open>(*posns[a].next)->tsc > (*posns[b].next)->tsc\<close>, and
  \<^verbatim>\<open>seq_vector(x)\<close>.
\<close>

definition compare_heads :: "'cb tsc_logger list \<Rightarrow> 'z pos_scheme list \<Rightarrow> nat \<Rightarrow> nat \<Rightarrow> bool" where
  "compare_heads pend posns a b =
     (tsc (deref pend (next_it (posns ! a))) > tsc (deref pend (next_it (posns ! b))))"

definition seq_vector :: "nat \<Rightarrow> nat list" where
  "seq_vector x = [0..<x]"

text \<open>How far a cursor is from the end of its vector: the measure of the merge loop.\<close>

definition room :: "'cb tsc_logger list \<Rightarrow> 'z pos_scheme \<Rightarrow> nat" where
  "room pend p = length (ops (pend ! fst (next_it p))) - snd (next_it p)"

lemma sum_list_update_less:
  assumes "i < length xs" "f y < f (xs ! i)"
  shows "sum_list (map f (xs[i := y])) < sum_list (map (f :: 'a \<Rightarrow> nat) xs)"
proof -
  have "sum_list (map f (xs[i := y])) + f (xs ! i) = sum_list (map f xs) + f y"
    using assms(1)
  proof (induction xs arbitrary: i)
    case Nil
    then show ?case by simp
  next
    case (Cons x xs)
    then show ?case by (cases i) auto
  qed
  with assms(2) show ?thesis by linarith
qed

text \<open>
  The merge loop, the same text in both functions:
  \<^verbatim>\<open>while (!heap.empty()) { auto top = heap.top();
  merged_ops.push_back(std::move(*posns[top].next)); ++posns[top].next; heap.pop();
  if (posns[top].next != posns[top].end) heap.push(top); }\<close>
  The queue is the list of the indices it holds: \<^verbatim>\<open>pop()\<close> removes the index \<^verbatim>\<open>top()\<close>
  returned, \<^verbatim>\<open>push\<close> adds one. Indexing \<^verbatim>\<open>posns\<close> or a vector out of range is the error
  \<open>OutOfRange\<close>.
\<close>

function merge_ops ::
  "'cb stdlib \<Rightarrow> 'cb tsc_logger list \<Rightarrow> nat list \<Rightarrow> 'z pos_scheme list \<Rightarrow> 'cb op list
     \<Rightarrow> error + 'z pos_scheme list \<times> 'cb op list" where
  "merge_ops L pend heap posns merged_ops =
     (if heap = [] then Inr (posns, merged_ops)
      else
        let top = pq_top L (compare_heads pend posns) heap in
        if \<not> top < length posns \<or> \<not> in_range pend (next_it (posns ! top)) then Inl OutOfRange
        else
          let merged_ops' = merged_ops @ [deref pend (next_it (posns ! top))];
              posns' = posns[top := (posns ! top)\<lparr>next_it := incr (next_it (posns ! top))\<rparr>];
              heap' = remove1 top heap
          in merge_ops L pend
               (if next_it (posns' ! top) \<noteq> end_it (posns' ! top) then heap' @ [top] else heap')
               posns' merged_ops')"
  by pat_completeness auto
termination
proof (relation "measure (\<lambda>(L, pend, heap, posns, merged_ops). sum_list (map (room pend) posns))")
  show "wf (measure (\<lambda>(L, pend, heap, posns, merged_ops). sum_list (map (room pend) posns)))"
    by simp
next
  fix L :: "'cb stdlib" and pend heap and posns :: "'z pos_scheme list" and merged_ops x xa xb xc
  assume "heap \<noteq> []" and x: "x = pq_top L (compare_heads pend posns) heap"
    and ok: "\<not> (\<not> x < length posns \<or> \<not> in_range pend (next_it (posns ! x)))"
    and xb: "xb = posns[x := (posns ! x)\<lparr>next_it := incr (next_it (posns ! x))\<rparr>]"
  have "room pend ((posns ! x)\<lparr>next_it := incr (next_it (posns ! x))\<rparr>) < room pend (posns ! x)"
    using ok by (auto simp: room_def in_range_def incr_def)
  with ok have "sum_list (map (room pend) xb) < sum_list (map (room pend) posns)"
    unfolding xb by (intro sum_list_update_less) simp_all
  then show "((L, pend, if next_it (xb ! x) \<noteq> end_it (xb ! x) then xc @ [x] else xc, xb, xa),
              L, pend, heap, posns, merged_ops)
        \<in> measure (\<lambda>(L, pend, heap, posns, merged_ops). sum_list (map (room pend) posns))"
    by simp
qed

declare merge_ops.simps [simp del]

text \<open>\<^verbatim>\<open>std::is_sorted(first, last, comp)\<close>: no element compares less than its predecessor.\<close>

fun is_sorted :: "('a \<Rightarrow> 'a \<Rightarrow> bool) \<Rightarrow> 'a list \<Rightarrow> bool" where
  "is_sorted cmp [] = True"
| "is_sorted cmp [x] = True"
| "is_sorted cmp (x # y # ys) = (\<not> cmp y x \<and> is_sorted cmp (y # ys))"

text \<open>
  The first loop of \<^verbatim>\<open>flush_finish\<close>: an empty logger is skipped, every other one is
  sorted and gets a cursor over all of its operations. \<open>i\<close> is the index of the logger
  the iterator \<^verbatim>\<open>it\<close> stands at.
\<close>

fun collect_posns ::
  "'cb stdlib \<Rightarrow> nat \<Rightarrow> 'cb tsc_logger list \<Rightarrow> 'cb tsc_logger list \<times> pos list" where
  "collect_posns L i [] = ([], [])"
| "collect_posns L i (l # rest) =
     (if ops l = []
      then (case collect_posns L (Suc i) rest of (rest', posns) \<Rightarrow> (l # rest', posns))
      else
        let l' = sort_ops L l in
        case collect_posns L (Suc i) rest of
          (rest', posns) \<Rightarrow> (l' # rest', \<lparr>next_it = (i, 0), end_it = (i, length (ops l'))\<rparr> # posns))"

text \<open>
  \<^verbatim>\<open>flush_finish()\<close>: the two early returns, the merge, the assertion, the calls of
  \<^verbatim>\<open>run()\<close> in merged order, and \<^verbatim>\<open>pending_.clear()\<close>.
\<close>

definition flush_finish ::
  "'cb stdlib \<Rightarrow> ('cb, 'z) tsc_logged_object_scheme
     \<Rightarrow> error + ('cb, 'z) tsc_logged_object_scheme" where
  "flush_finish L s =
     (if pending s = [] then Inr s
      else
        case collect_posns L 0 (pending s) of
          (pend, posns) \<Rightarrow>
            if posns = [] then Inr (s\<lparr>pending := pend\<rparr>)
            else
              (case merge_ops L pend (seq_vector (length posns)) posns [] of
                 Inl e \<Rightarrow> Inl e
               | Inr (posns', merged_ops) \<Rightarrow>
                   if \<not> is_sorted compare_tsc merged_ops then Inl AssertFailed
                   else Inr (s\<lparr>ran := ran s @ merged_ops, pending := []\<rparr>)))"

text \<open>
  The first loop of \<^verbatim>\<open>flush_finish_max_timestamp\<close>: every logger is sorted; one that
  has an operation before \<open>max_tsc\<close> gets a cursor that ends at \<^verbatim>\<open>ops_before_max_tsc\<close>.
\<close>

fun collect_posns_max ::
  "'cb stdlib \<Rightarrow> u64 \<Rightarrow> nat \<Rightarrow> 'cb tsc_logger list \<Rightarrow> 'cb tsc_logger list \<times> mfs_pos list" where
  "collect_posns_max L max_tsc i [] = ([], [])"
| "collect_posns_max L max_tsc i (l # rest) =
     (let l' = sort_ops L l;
          e = ops_before_max_tsc l' max_tsc
      in case collect_posns_max L max_tsc (Suc i) rest of
           (rest', posns) \<Rightarrow>
             if 0 = e then (l' # rest', posns)
             else (l' # rest', \<lparr>next_it = (i, 0), end_it = (i, e), pos_logger = i\<rparr> # posns))"

text \<open>\<^verbatim>\<open>for (auto &pos : posns) pos.logger->ops_.erase(pos.logger->ops_.begin(), pos.end);\<close>\<close>

fun erase_consumed :: "mfs_pos list \<Rightarrow> 'cb tsc_logger list \<Rightarrow> 'cb tsc_logger list" where
  "erase_consumed [] pend = pend"
| "erase_consumed (p # posns) pend =
     erase_consumed posns
       (pend[pos_logger p := (pend ! pos_logger p)\<lparr>ops := drop (snd (end_it p)) (ops (pend ! pos_logger p))\<rparr>])"

text \<open>
  \<^verbatim>\<open>flush_finish_max_timestamp(max_tsc)\<close>; its last loop erases the loggers that are
  empty from \<^verbatim>\<open>pending_\<close>.
\<close>

definition flush_finish_max_timestamp ::
  "'cb stdlib \<Rightarrow> u64 \<Rightarrow> ('cb, 'z) tsc_logged_object_scheme
     \<Rightarrow> error + ('cb, 'z) tsc_logged_object_scheme" where
  "flush_finish_max_timestamp L max_tsc s =
     (if pending s = [] then Inr s
      else
        case collect_posns_max L max_tsc 0 (pending s) of
          (pend, posns) \<Rightarrow>
            if posns = [] then Inr (s\<lparr>pending := pend\<rparr>)
            else
              (case merge_ops L pend (seq_vector (length posns)) posns [] of
                 Inl e \<Rightarrow> Inl e
               | Inr (posns', merged_ops) \<Rightarrow>
                   if \<not> is_sorted compare_tsc merged_ops then Inl AssertFailed
                   else Inr (s\<lparr>ran := ran s @ merged_ops,
                               pending := filter (\<lambda>l. ops l \<noteq> []) (erase_consumed posns' pend)\<rparr>)))"

text \<open>
  \<^verbatim>\<open>synchronize()\<close>: take \<^verbatim>\<open>sync_lock_\<close>, gather, \<^verbatim>\<open>flush_finish()\<close>. The guard is returned
  to the caller, so the lock is still held in the state returned.
\<close>

definition synchronize ::
  "'cb stdlib \<Rightarrow> u64 \<Rightarrow> ('cb, 'z) tsc_logged_object_scheme
     \<Rightarrow> (error + ('cb, 'z) tsc_logged_object_scheme) option" where
  "synchronize L this s =
     (case spin_acquire (sync_lock s) of
        None \<Rightarrow> None
      | Some held \<Rightarrow>
          (case gather_loop this (s\<lparr>sync_lock := held\<rparr>) of
             None \<Rightarrow> None
           | Some (Inl e) \<Rightarrow> Some (Inl e)
           | Some (Inr s') \<Rightarrow> Some (flush_finish L s')))"

section \<open>mfs\_logged\_object\<close>

text \<open>
  Modelled from the spec: \<^verbatim>\<open>seqcount<u32>\<close> (seqlock.hh is not among the sources). "Writer
  pattern is bump seqcount; write value; bump seqcount; readers retry until they see an
  even-even observation", and \<^verbatim>\<open>need_retry\<close> holds once "the sequence counter advances
  beyond the previously observed snapshot". A reader is the snapshot it took; the functions
  get the counter as it is when they are called. \<^verbatim>\<open>read_begin\<close> and \<^verbatim>\<open>do_retry\<close> spin
  while the counter is odd (a write is in progress); \<^verbatim>\<open>do_retry\<close> says whether the read
  has to be done again, and if so takes a new snapshot. \<^verbatim>\<open>write_begin\<close> bumps the counter,
  the writer \<^verbatim>\<open>w\<close> bumps it again when it goes out of scope.
\<close>

partial_function (option) wait_even :: "u32 \<Rightarrow> u32 option" where
  "wait_even cur = (if cur AND 1 \<noteq> 0 then wait_even cur else Some cur)"

declare wait_even.simps [code]

definition read_begin :: "u32 \<Rightarrow> u32 option" where
  "read_begin cur = wait_even cur"

definition need_retry :: "u32 \<Rightarrow> u32 \<Rightarrow> bool" where
  "need_retry init cur \<longleftrightarrow> cur \<noteq> init"

definition do_retry :: "u32 \<Rightarrow> u32 \<Rightarrow> (bool \<times> u32) option" where
  "do_retry init cur =
     (if cur = init then Some (False, init)
      else (case wait_even cur of None \<Rightarrow> None | Some n \<Rightarrow> Some (True, n)))"

definition write_begin :: "u32 \<Rightarrow> u32" where
  "write_begin cur = cur + 1"

definition write_end :: "u32 \<Rightarrow> u32" where
  "write_end val = val + 1"

text \<open>
  \<^verbatim>\<open>update_start_tsc\<close> and \<^verbatim>\<open>update_end_tsc\<close> have the same body on their own array:
  \<^verbatim>\<open>auto w = x[cpu].seq.write_begin(); x[cpu].tsc_value = tsc;\<close> and the end of \<^verbatim>\<open>w\<close>.
  \<^verbatim>\<open>percpu<mfs_tsc>\<close> is a function of the CPU number.
\<close>

definition update_tsc :: "u64 \<Rightarrow> mfs_tsc \<Rightarrow> mfs_tsc" where
  "update_tsc ts cell =
     (let w = write_begin (seq cell);
          cell = cell\<lparr>seq := w\<rparr>;
          cell = cell\<lparr>tsc_value := ts\<rparr>
      in cell\<lparr>seq := write_end w\<rparr>)"

definition update_start_tsc ::
  "nat \<Rightarrow> u64 \<Rightarrow> ('cb, 'z) mfs_logged_object_scheme \<Rightarrow> ('cb, 'z) mfs_logged_object_scheme" where
  "update_start_tsc cpu start_tsc s =
     s\<lparr>mfs_start_tsc := (mfs_start_tsc s)(cpu := update_tsc start_tsc (mfs_start_tsc s cpu))\<rparr>"

definition update_end_tsc ::
  "nat \<Rightarrow> u64 \<Rightarrow> ('cb, 'z) mfs_logged_object_scheme \<Rightarrow> ('cb, 'z) mfs_logged_object_scheme" where
  "update_end_tsc cpu end_tsc s =
     s\<lparr>mfs_end_tsc := (mfs_end_tsc s)(cpu := update_tsc end_tsc (mfs_end_tsc s cpu))\<rparr>"

text \<open>
  The pre-gather scan of \<^verbatim>\<open>wait_synchronize\<close> for one CPU, with no other thread running:
  \<^verbatim>\<open>while (r.do_retry()) v = x[i].tsc_value;\<close> is \<open>read_loop\<close>,
  \<^verbatim>\<open>while (!r_end.need_retry());\<close> is \<open>wait_for_write\<close>. \<open>scan_read\<close> gives the values of
  \<^verbatim>\<open>start_tsc\<close> and \<^verbatim>\<open>end_tsc\<close> that the \<^verbatim>\<open>if\<close> compares, and the reader \<^verbatim>\<open>r_end\<close>.
\<close>

partial_function (option) read_loop :: "u32 \<Rightarrow> mfs_tsc \<Rightarrow> u64 \<Rightarrow> (u32 \<times> u64) option" where
  "read_loop r cell v =
     (case do_retry r (seq cell) of
        None \<Rightarrow> None
      | Some (again, r') \<Rightarrow> if again then read_loop r' cell (tsc_value cell) else Some (r', v))"

declare read_loop.simps [code]

partial_function (option) wait_for_write :: "u32 \<Rightarrow> mfs_tsc \<Rightarrow> unit option" where
  "wait_for_write r cell =
     (if \<not> need_retry r (seq cell) then wait_for_write r cell else Some ())"

declare wait_for_write.simps [code]

definition scan_read ::
  "('cb, 'z) mfs_logged_object_scheme \<Rightarrow> nat \<Rightarrow> (u64 \<times> u64 \<times> u32) option" where
  "scan_read s i =
     (case read_begin (seq (mfs_start_tsc s i)) of
        None \<Rightarrow> None
      | Some r_start \<Rightarrow>
          (case read_begin (seq (mfs_end_tsc s i)) of
             None \<Rightarrow> None
           | Some r_end \<Rightarrow>
               (case read_loop r_start (mfs_start_tsc s i) 0 of
                  None \<Rightarrow> None
                | Some (r_start', start_tsc) \<Rightarrow>
                    (case read_loop r_end (mfs_end_tsc s i) 0 of
                       None \<Rightarrow> None
                     | Some (r_end', end_tsc) \<Rightarrow> Some (start_tsc, end_tsc, r_end')))))"

definition scan_cpu :: "('cb, 'z) mfs_logged_object_scheme \<Rightarrow> nat \<Rightarrow> u64 \<Rightarrow> unit option" where
  "scan_cpu s i wait_tsc =
     (case scan_read s i of
        None \<Rightarrow> None
      | Some (start_tsc, end_tsc, r_end) \<Rightarrow>
          if end_tsc < start_tsc \<and> start_tsc < wait_tsc
          then wait_for_write r_end (mfs_end_tsc s i)
          else Some ())"

fun scan_cpus :: "('cb, 'z) mfs_logged_object_scheme \<Rightarrow> nat list \<Rightarrow> u64 \<Rightarrow> unit option" where
  "scan_cpus s [] wait_tsc = Some ()"
| "scan_cpus s (i # rest) wait_tsc =
     (case scan_cpu s i wait_tsc of None \<Rightarrow> None | Some _ \<Rightarrow> scan_cpus s rest wait_tsc)"

text \<open>
  \<^verbatim>\<open>wait_synchronize(wait_tsc)\<close>: the scan over all CPUs, the gather loop, and
  \<^verbatim>\<open>flush_finish_max_timestamp(wait_tsc)\<close>.
\<close>

definition wait_synchronize ::
  "'cb stdlib \<Rightarrow> u64 \<Rightarrow> u64 \<Rightarrow> ('cb, 'z) mfs_logged_object_scheme
     \<Rightarrow> (error + ('cb, 'z) mfs_logged_object_scheme) option" where
  "wait_synchronize L this wait_tsc s =
     (case spin_acquire (sync_lock s) of
        None \<Rightarrow> None
      | Some held \<Rightarrow>
          (case scan_cpus (s\<lparr>sync_lock := held\<rparr>) [0..<length (cpus s)] wait_tsc of
             None \<Rightarrow> None
           | Some _ \<Rightarrow>
               (case gather_loop this (s\<lparr>sync_lock := held\<rparr>) of
                  None \<Rightarrow> None
                | Some (Inl e) \<Rightarrow> Some (Inl e)
                | Some (Inr s') \<Rightarrow> Some (flush_finish_max_timestamp L wait_tsc s'))))"

section \<open>std::sort as libstdc++ implements it\<close>

text \<open>
  \<^verbatim>\<open>sort_ops\<close> hands the vector to \<^verbatim>\<open>std::sort\<close>, so what happens to operations with
  equal timestamps is decided by the library. The algorithm of GCC's libstdc++
  (\<^verbatim>\<open>bits/stl_algo.h\<close>, \<^verbatim>\<open>bits/stl_heap.h\<close>) is written out here: an introsort that
  partitions a range of more than 16 elements around a median of three, falls back to
  heapsort when its depth limit is used up, and finishes with one insertion sort over
  the whole range. The range is a list and an iterator is a position in it; the
  iterator \<^verbatim>\<open>__last\<close> is \<open>lst\<close> and \<^verbatim>\<open>__cut\<close> is \<open>cutp\<close> here. The unguarded loops of
  the library stop only at a sentinel; a step of theirs that leaves the vector is the
  error \<open>OutOfRange\<close>.
\<close>

text \<open>\<^verbatim>\<open>std::__lg(n)\<close>: the position of the highest set bit of \<open>n\<close>.\<close>

fun lg :: "nat \<Rightarrow> nat" where
  "lg n = (if n < 2 then 0 else Suc (lg (n div 2)))"

declare lg.simps [simp del]

definition iter_swap :: "nat \<Rightarrow> nat \<Rightarrow> 'a list \<Rightarrow> 'a list" where
  "iter_swap i j xs = xs[i := xs ! j, j := xs ! i]"

subsection \<open>The final insertion sort\<close>

text \<open>
  \<^verbatim>\<open>__unguarded_linear_insert(last, comp)\<close>:
  \<^verbatim>\<open>val = *last; next = last; --next;
  while (comp(val, next)) { *last = *next; last = next; --next; } *last = val;\<close>
  The loop has no test for the start of the range: at position 0 the element before
  \<^verbatim>\<open>last\<close> does not exist.
\<close>

fun linear_insert_loop :: "('a \<Rightarrow> 'a \<Rightarrow> bool) \<Rightarrow> 'a \<Rightarrow> nat \<Rightarrow> 'a list \<Rightarrow> error + 'a list" where
  "linear_insert_loop lt val 0 xs = Inl OutOfRange"
| "linear_insert_loop lt val (Suc nxt) xs =
     (if lt val (xs ! nxt) then linear_insert_loop lt val nxt (xs[Suc nxt := xs ! nxt])
      else Inr (xs[Suc nxt := val]))"

definition unguarded_linear_insert :: "('a \<Rightarrow> 'a \<Rightarrow> bool) \<Rightarrow> nat \<Rightarrow> 'a list \<Rightarrow> error + 'a list" where
  "unguarded_linear_insert lt lst xs = linear_insert_loop lt (xs ! lst) lst xs"

text \<open>
  \<^verbatim>\<open>std::move_backward(first, i, i + 1)\<close> moves the elements of \<^verbatim>\<open>[first, i)\<close> one
  position to the right.
\<close>

definition move_backward :: "nat \<Rightarrow> nat \<Rightarrow> 'a list \<Rightarrow> 'a list" where
  "move_backward first i xs = take (Suc first) xs @ take (i - first) (drop first xs) @ drop (Suc i) xs"

text \<open>
  The body of the loop of \<^verbatim>\<open>__insertion_sort(first, last, comp)\<close>:
  \<^verbatim>\<open>if (comp(i, first)) { val = *i; move_backward(first, i, i + 1); *first = val; }
  else __unguarded_linear_insert(i, comp);\<close>
\<close>

definition insert_step :: "('a \<Rightarrow> 'a \<Rightarrow> bool) \<Rightarrow> nat \<Rightarrow> nat \<Rightarrow> 'a list \<Rightarrow> error + 'a list" where
  "insert_step lt first i xs =
     (if lt (xs ! i) (xs ! first) then Inr ((move_backward first i xs)[first := xs ! i])
      else unguarded_linear_insert lt i xs)"

text \<open>A \<^verbatim>\<open>for\<close> loop over the positions \<open>ks\<close> whose body may fail.\<close>

fun for_each :: "(nat \<Rightarrow> 'a list \<Rightarrow> error + 'a list) \<Rightarrow> nat list \<Rightarrow> 'a list \<Rightarrow> error + 'a list" where
  "for_each body [] xs = Inr xs"
| "for_each body (i # ks) xs = (case body i xs of Inl e \<Rightarrow> Inl e | Inr ys \<Rightarrow> for_each body ks ys)"

text \<open>
  \<^verbatim>\<open>__insertion_sort\<close>: \<^verbatim>\<open>if (first == last) return;
  for (i = first + 1; i != last; ++i) ...\<close>, and
  \<^verbatim>\<open>__unguarded_insertion_sort\<close>:
  \<^verbatim>\<open>for (i = first; i != last; ++i) __unguarded_linear_insert(i, comp);\<close>
\<close>

definition insertion_sort :: "('a \<Rightarrow> 'a \<Rightarrow> bool) \<Rightarrow> nat \<Rightarrow> nat \<Rightarrow> 'a list \<Rightarrow> error + 'a list" where
  "insertion_sort lt first lst xs =
     (if first = lst then Inr xs else for_each (insert_step lt first) [Suc first..<lst] xs)"

definition unguarded_insertion_sort :: "('a \<Rightarrow> 'a \<Rightarrow> bool) \<Rightarrow> nat \<Rightarrow> nat \<Rightarrow> 'a list \<Rightarrow> error + 'a list" where
  "unguarded_insertion_sort lt first lst xs = for_each (unguarded_linear_insert lt) [first..<lst] xs"

text \<open>\<^verbatim>\<open>enum { _S_threshold = 16 };\<close>\<close>

definition S_threshold :: nat where
  "S_threshold = 16"

text \<open>
  \<^verbatim>\<open>__final_insertion_sort\<close>: the first 16 elements are sorted with the guarded loop, the
  others are inserted with the unguarded one.
\<close>

definition final_insertion_sort :: "('a \<Rightarrow> 'a \<Rightarrow> bool) \<Rightarrow> nat \<Rightarrow> nat \<Rightarrow> 'a list \<Rightarrow> error + 'a list" where
  "final_insertion_sort lt first lst xs =
     (if S_threshold < lst - first
      then (case insertion_sort lt first (first + S_threshold) xs of
              Inl e \<Rightarrow> Inl e
            | Inr ys \<Rightarrow> unguarded_insertion_sort lt (first + S_threshold) lst ys)
      else insertion_sort lt first lst xs)"

subsection \<open>The partition around the median of three\<close>

text \<open>
  \<^verbatim>\<open>__move_median_to_first(result, a, b, c, comp)\<close> exchanges \<^verbatim>\<open>*result\<close> with the median
  of \<^verbatim>\<open>*a\<close>, \<^verbatim>\<open>*b\<close> and \<^verbatim>\<open>*c\<close>; when none of the three is less than another, with \<^verbatim>\<open>*b\<close>.
\<close>

definition move_median_to_first :: "('a \<Rightarrow> 'a \<Rightarrow> bool) \<Rightarrow> nat \<Rightarrow> nat \<Rightarrow> nat \<Rightarrow> nat \<Rightarrow> 'a list \<Rightarrow> 'a list" where
  "move_median_to_first lt result a b c xs =
     (if lt (xs ! a) (xs ! b)
      then (if lt (xs ! b) (xs ! c) then iter_swap result b xs
            else if lt (xs ! a) (xs ! c) then iter_swap result c xs
            else iter_swap result a xs)
      else if lt (xs ! a) (xs ! c) then iter_swap result a xs
      else if lt (xs ! b) (xs ! c) then iter_swap result c xs
      else iter_swap result b xs)"

text \<open>
  \<^verbatim>\<open>__unguarded_partition(first, last, pivot, comp)\<close>:
  \<^verbatim>\<open>while (true) { while (comp(first, pivot)) ++first; --last;
  while (comp(pivot, last)) --last; if (!(first < last)) return first;
  iter_swap(first, last); ++first; }\<close>
  \<open>scan_up\<close> and \<open>scan_down\<close> are the two inner loops. Equal elements stop both scans,
  so they are exchanged.
\<close>

function scan_up :: "('a \<Rightarrow> 'a \<Rightarrow> bool) \<Rightarrow> nat \<Rightarrow> nat \<Rightarrow> 'a list \<Rightarrow> error + nat" where
  "scan_up lt pivot first xs =
     (if length xs \<le> first then Inl OutOfRange
      else if lt (xs ! first) (xs ! pivot) then scan_up lt pivot (Suc first) xs
      else Inr first)"
  by pat_completeness auto

termination
  by (relation "measure (\<lambda>(lt, pivot, first, xs). length xs - first)") auto

declare scan_up.simps [simp del]

fun scan_down :: "('a \<Rightarrow> 'a \<Rightarrow> bool) \<Rightarrow> nat \<Rightarrow> nat \<Rightarrow> 'a list \<Rightarrow> error + nat" where
  "scan_down lt pivot 0 xs = (if lt (xs ! pivot) (xs ! 0) then Inl OutOfRange else Inr 0)"
| "scan_down lt pivot (Suc l) xs =
     (if lt (xs ! pivot) (xs ! Suc l) then scan_down lt pivot l xs else Inr (Suc l))"

lemma scan_down_le: "scan_down lt pivot l xs = Inr l' \<Longrightarrow> l' \<le> l"
  by (induction l) (auto split: if_splits)

function unguarded_partition ::
  "('a \<Rightarrow> 'a \<Rightarrow> bool) \<Rightarrow> nat \<Rightarrow> nat \<Rightarrow> nat \<Rightarrow> 'a list \<Rightarrow> error + nat \<times> 'a list" where
  "unguarded_partition lt first lst pivot xs =
     (case scan_up lt pivot first xs of
        Inl e \<Rightarrow> Inl e
      | Inr f \<Rightarrow>
          (if lst = 0 then Inl OutOfRange
           else (case scan_down lt pivot (lst - 1) xs of
                   Inl e \<Rightarrow> Inl e
                 | Inr l \<Rightarrow>
                     (if \<not> f < l then Inr (f, xs)
                      else unguarded_partition lt (Suc f) l pivot (iter_swap f l xs)))))"
  by pat_completeness auto

termination
proof (relation "measure (\<lambda>(lt, first, lst, pivot, xs). lst)", goal_cases)
  case 1
  show ?case by simp
next
  case (2 lt first lst pivot xs f l)
  from scan_down_le[OF 2(3)] 2(2) show ?case by simp
qed

declare unguarded_partition.simps [simp del]

text \<open>
  \<^verbatim>\<open>__unguarded_partition_pivot(first, last, comp)\<close>:
  \<^verbatim>\<open>mid = first + (last - first) / 2;
  __move_median_to_first(first, first + 1, mid, last - 1, comp);
  return __unguarded_partition(first + 1, last, first, comp);\<close>
\<close>

definition unguarded_partition_pivot ::
  "('a \<Rightarrow> 'a \<Rightarrow> bool) \<Rightarrow> nat \<Rightarrow> nat \<Rightarrow> 'a list \<Rightarrow> error + nat \<times> 'a list" where
  "unguarded_partition_pivot lt first lst xs =
     (let mid = first + (lst - first) div 2
      in unguarded_partition lt (first + 1) lst first
           (move_median_to_first lt first (first + 1) mid (lst - 1) xs))"

subsection \<open>The heapsort fallback\<close>

text \<open>
  \<^verbatim>\<open>__push_heap(first, holeIndex, topIndex, value, comp)\<close>:
  \<^verbatim>\<open>parent = (holeIndex - 1) / 2;
  while (holeIndex > topIndex && comp(first + parent, value)) {
  *(first + holeIndex) = *(first + parent); holeIndex = parent;
  parent = (holeIndex - 1) / 2; } *(first + holeIndex) = value;\<close>
\<close>

function push_heap :: "('a \<Rightarrow> 'a \<Rightarrow> bool) \<Rightarrow> nat \<Rightarrow> nat \<Rightarrow> nat \<Rightarrow> 'a \<Rightarrow> 'a list \<Rightarrow> 'a list" where
  "push_heap lt first holeIndex topIndex val xs =
     (if topIndex < holeIndex \<and> lt (xs ! (first + (holeIndex - 1) div 2)) val
      then push_heap lt first ((holeIndex - 1) div 2) topIndex val
             (xs[first + holeIndex := xs ! (first + (holeIndex - 1) div 2)])
      else xs[first + holeIndex := val])"
  by pat_completeness auto

termination
  by (relation "measure (\<lambda>(lt, first, holeIndex, topIndex, val, xs). holeIndex)") auto

declare push_heap.simps [simp del]

text \<open>
  The first loop of \<^verbatim>\<open>__adjust_heap(first, holeIndex, len, value, comp)\<close>, in which
  \<^verbatim>\<open>holeIndex\<close> and \<^verbatim>\<open>secondChild\<close> are equal at every test:
  \<^verbatim>\<open>while (secondChild < (len - 1) / 2) { secondChild = 2 * (secondChild + 1);
  if (comp(first + secondChild, first + (secondChild - 1))) secondChild--;
  *(first + holeIndex) = *(first + secondChild); holeIndex = secondChild; }\<close>
\<close>

function sift_down :: "('a \<Rightarrow> 'a \<Rightarrow> bool) \<Rightarrow> nat \<Rightarrow> nat \<Rightarrow> nat \<Rightarrow> 'a list \<Rightarrow> nat \<times> 'a list" where
  "sift_down lt first len secondChild xs =
     (if secondChild < (len - 1) div 2
      then (let sc = 2 * (secondChild + 1);
                sc' = (if lt (xs ! (first + sc)) (xs ! (first + (sc - 1))) then sc - 1 else sc)
            in sift_down lt first len sc' (xs[first + secondChild := xs ! (first + sc')]))
      else (secondChild, xs))"
  by pat_completeness auto

termination
  by (relation "measure (\<lambda>(lt, first, len, secondChild, xs). len - secondChild)") auto

declare sift_down.simps [simp del]

text \<open>
  The rest of \<^verbatim>\<open>__adjust_heap\<close>:
  \<^verbatim>\<open>if ((len & 1) == 0 && secondChild == (len - 2) / 2) {
  secondChild = 2 * (secondChild + 1);
  *(first + holeIndex) = *(first + (secondChild - 1)); holeIndex = secondChild - 1; }
  __push_heap(first, holeIndex, topIndex, value, comp);\<close>
  The distances are signed in the library: for a length below 2 the quotient
  \<^verbatim>\<open>(len - 2) / 2\<close> is not a position, hence the test \<open>2 \<le> len\<close>.
\<close>

definition adjust_heap :: "('a \<Rightarrow> 'a \<Rightarrow> bool) \<Rightarrow> nat \<Rightarrow> nat \<Rightarrow> nat \<Rightarrow> 'a \<Rightarrow> 'a list \<Rightarrow> 'a list" where
  "adjust_heap lt first holeIndex len val xs =
     (case sift_down lt first len holeIndex xs of
        (h, ys) \<Rightarrow>
          (if len mod 2 = 0 \<and> 2 \<le> len \<and> h = (len - 2) div 2
           then push_heap lt first (2 * (h + 1) - 1) holeIndex val
                  (ys[first + h := ys ! (first + (2 * (h + 1) - 1))])
           else push_heap lt first h holeIndex val ys))"

text \<open>
  \<^verbatim>\<open>__make_heap(first, last, comp)\<close>:
  \<^verbatim>\<open>if (last - first < 2) return; len = last - first; parent = (len - 2) / 2;
  while (true) { value = *(first + parent); __adjust_heap(first, parent, len, value, comp);
  if (parent == 0) return; parent--; }\<close>
\<close>

fun make_heap_loop :: "('a \<Rightarrow> 'a \<Rightarrow> bool) \<Rightarrow> nat \<Rightarrow> nat \<Rightarrow> nat \<Rightarrow> 'a list \<Rightarrow> 'a list" where
  "make_heap_loop lt first len 0 xs = adjust_heap lt first 0 len (xs ! first) xs"
| "make_heap_loop lt first len (Suc parent) xs =
     make_heap_loop lt first len parent
       (adjust_heap lt first (Suc parent) len (xs ! (first + Suc parent)) xs)"

definition make_heap :: "('a \<Rightarrow> 'a \<Rightarrow> bool) \<Rightarrow> nat \<Rightarrow> nat \<Rightarrow> 'a list \<Rightarrow> 'a list" where
  "make_heap lt first lst xs =
     (if lst - first < 2 then xs
      else make_heap_loop lt first (lst - first) ((lst - first - 2) div 2) xs)"

text \<open>
  \<^verbatim>\<open>__pop_heap(first, last, result, comp)\<close>:
  \<^verbatim>\<open>value = *result; *result = *first; __adjust_heap(first, 0, last - first, value, comp);\<close>
\<close>

definition pop_heap :: "('a \<Rightarrow> 'a \<Rightarrow> bool) \<Rightarrow> nat \<Rightarrow> nat \<Rightarrow> nat \<Rightarrow> 'a list \<Rightarrow> 'a list" where
  "pop_heap lt first lst result xs =
     adjust_heap lt first 0 (lst - first) (xs ! result) (xs[result := xs ! first])"

text \<open>
  \<^verbatim>\<open>__sort_heap(first, last, comp)\<close>:
  \<^verbatim>\<open>while (last - first > 1) { --last; __pop_heap(first, last, last, comp); }\<close>
\<close>

function sort_heap :: "('a \<Rightarrow> 'a \<Rightarrow> bool) \<Rightarrow> nat \<Rightarrow> nat \<Rightarrow> 'a list \<Rightarrow> 'a list" where
  "sort_heap lt first lst xs =
     (if 1 < lst - first
      then sort_heap lt first (lst - 1) (pop_heap lt first (lst - 1) (lst - 1) xs)
      else xs)"
  by pat_completeness auto

termination
  by (relation "measure (\<lambda>(lt, first, lst, xs). lst)") auto

declare sort_heap.simps [simp del]

text \<open>
  \<^verbatim>\<open>__heap_select(first, middle, last, comp)\<close>:
  \<^verbatim>\<open>__make_heap(first, middle, comp);
  for (i = middle; i < last; ++i) if (comp(i, first)) __pop_heap(first, middle, i, comp);\<close>
  and \<^verbatim>\<open>__partial_sort\<close>: \<^verbatim>\<open>__heap_select(first, middle, last, comp);
  __sort_heap(first, middle, comp);\<close>
\<close>

definition heap_select :: "('a \<Rightarrow> 'a \<Rightarrow> bool) \<Rightarrow> nat \<Rightarrow> nat \<Rightarrow> nat \<Rightarrow> 'a list \<Rightarrow> 'a list" where
  "heap_select lt first middle lst xs =
     fold (\<lambda>i ys. if lt (ys ! i) (ys ! first) then pop_heap lt first middle i ys else ys)
       [middle..<lst] (make_heap lt first middle xs)"

definition partial_sort :: "('a \<Rightarrow> 'a \<Rightarrow> bool) \<Rightarrow> nat \<Rightarrow> nat \<Rightarrow> nat \<Rightarrow> 'a list \<Rightarrow> 'a list" where
  "partial_sort lt first middle lst xs = sort_heap lt first middle (heap_select lt first middle lst xs)"

subsection \<open>The introsort loop and std::sort\<close>

text \<open>
  \<^verbatim>\<open>__introsort_loop(first, last, depth_limit, comp)\<close>:
  \<^verbatim>\<open>while (last - first > int(_S_threshold)) {
  if (depth_limit == 0) { __partial_sort(first, last, last, comp); return; }
  --depth_limit; cut = __unguarded_partition_pivot(first, last, comp);
  __introsort_loop(cut, last, depth_limit, comp); last = cut; }\<close>
\<close>

function introsort_loop ::
  "('a \<Rightarrow> 'a \<Rightarrow> bool) \<Rightarrow> nat \<Rightarrow> nat \<Rightarrow> nat \<Rightarrow> 'a list \<Rightarrow> error + 'a list" where
  "introsort_loop lt first lst depth_limit xs =
     (if S_threshold < lst - first
      then (if depth_limit = 0 then Inr (partial_sort lt first lst lst xs)
            else (case unguarded_partition_pivot lt first lst xs of
                    Inl e \<Rightarrow> Inl e
                  | Inr (cutp, ys) \<Rightarrow>
                      (case introsort_loop lt cutp lst (depth_limit - 1) ys of
                         Inl e \<Rightarrow> Inl e
                       | Inr zs \<Rightarrow> introsort_loop lt first cutp (depth_limit - 1) zs)))
      else Inr xs)"
  by pat_completeness auto

termination
  by (relation "measure (\<lambda>(lt, first, lst, depth_limit, xs). depth_limit)") auto

declare introsort_loop.simps [simp del]

text \<open>
  \<^verbatim>\<open>std::sort(first, last, comp)\<close>, that is \<^verbatim>\<open>__sort\<close>:
  \<^verbatim>\<open>if (first != last) {
  __introsort_loop(first, last, __lg(last - first) * 2, comp);
  __final_insertion_sort(first, last, comp); }\<close>
  on the whole vector.
\<close>

definition libstdcxx_sort :: "('a \<Rightarrow> 'a \<Rightarrow> bool) \<Rightarrow> 'a list \<Rightarrow> error + 'a list" where
  "libstdcxx_sort lt xs =
     (if xs = [] then Inr xs
      else (case introsort_loop lt 0 (length xs) (lg (length xs) * 2) xs of
              Inl e \<Rightarrow> Inl e
            | Inr ys \<Rightarrow> final_insertion_sort lt 0 (length xs) ys))"

text \<open>
  The vector as \<^verbatim>\<open>std::sort\<close> leaves it. (With \<open>compare_tsc\<close> the sort never leaves the
  range, see \<open>libstdcxx_sort_correct\<close>.)
\<close>

definition std_sort_libstdcxx :: "('a \<Rightarrow> 'a \<Rightarrow> bool) \<Rightarrow> 'a list \<Rightarrow> 'a list" where
  "std_sort_libstdcxx lt xs = (case libstdcxx_sort lt xs of Inl e \<Rightarrow> xs | Inr ys \<Rightarrow> ys)"

section \<open>Model libraries and example objects\<close>

text \<open>
  Two libraries. In both \<^verbatim>\<open>top()\<close> is the first greatest element of the queue.
  \<open>lib_gcc\<close> sorts as libstdc++ does. \<open>lib_stable\<close> sorts by insertion from the right
  end, where \<open>ins_before\<close> puts an element before the elements equivalent to it (a stable
  sort); \<open>ins_after\<close> puts it behind them.
\<close>

fun ins_before :: "('a \<Rightarrow> 'a \<Rightarrow> bool) \<Rightarrow> 'a \<Rightarrow> 'a list \<Rightarrow> 'a list" where
  "ins_before cmp x [] = [x]"
| "ins_before cmp x (y # ys) = (if cmp y x then y # ins_before cmp x ys else x # y # ys)"

fun ins_after :: "('a \<Rightarrow> 'a \<Rightarrow> bool) \<Rightarrow> 'a \<Rightarrow> 'a list \<Rightarrow> 'a list" where
  "ins_after cmp x [] = [x]"
| "ins_after cmp x (y # ys) = (if cmp x y then x # y # ys else y # ins_after cmp x ys)"

definition sort_stable :: "('a \<Rightarrow> 'a \<Rightarrow> bool) \<Rightarrow> 'a list \<Rightarrow> 'a list" where
  "sort_stable cmp xs = foldr (ins_before cmp) xs []"

fun first_top :: "(nat \<Rightarrow> nat \<Rightarrow> bool) \<Rightarrow> nat list \<Rightarrow> nat" where
  "first_top cmp [] = 0"
| "first_top cmp (x # xs) = fold (\<lambda>y best. if cmp best y then y else best) xs x"

definition lib_stable :: "'cb stdlib" where
  "lib_stable = \<lparr>std_sort = sort_stable, pq_top = first_top\<rparr>"

definition lib_gcc :: "'cb stdlib" where
  "lib_gcc = \<lparr>std_sort = std_sort_libstdcxx, pq_top = first_top\<rparr>"

text \<open>The loggers a gather moves into \<^verbatim>\<open>pending_\<close>: those of the CPUs in \<^verbatim>\<open>cpus_\<close>.\<close>

definition gathered :: "u64 \<Rightarrow> ('cb, 'z) tsc_logged_object_scheme \<Rightarrow> 'cb tsc_logger list" where
  "gathered this s = map (\<lambda>c. logger (cache s c (hash_way this))) (set_cpus (cpus s))"

text \<open>The trace of executed operations of a call that returned normally.\<close>

definition ran_of :: "(error + ('cb, 'z) tsc_logged_object_scheme) option \<Rightarrow> 'cb op list option" where
  "ran_of r = (case r of Some (Inr s) \<Rightarrow> Some (ran s) | _ \<Rightarrow> None)"

text \<open>
  Two objects at address 4096 on which the model is run. \<open>obj0\<close> is the second scenario of
  the spec: CPU 0 pushed \<open>(5, 0)\<close> and \<open>(15, 2)\<close>, CPU 1 pushed \<open>(10, 1)\<close>. On \<open>obj_ties\<close>
  CPU 0 pushed 17 operations with the timestamp 4, the callables 0 to 16 in this order.
\<close>

definition this0 :: u64 where
  "this0 = 4096"

definition cache0 :: "nat \<Rightarrow> nat \<Rightarrow> nat way" where
  "cache0 cpu wayno =
     (if cpu = 0 \<and> wayno = hash_way this0
      then \<lparr>obj = this0, lock = False, logger = push_with_tsc 15 2 (push_with_tsc 5 0 \<lparr>ops = []\<rparr>)\<rparr>
      else if cpu = 1 \<and> wayno = hash_way this0
      then \<lparr>obj = this0, lock = False, logger = push_with_tsc 10 1 \<lparr>ops = []\<rparr>\<rparr>
      else \<lparr>obj = 0, lock = False, logger = \<lparr>ops = []\<rparr>\<rparr>)"

definition obj0 :: "nat tsc_logged_object" where
  "obj0 = \<lparr>cache = cache0, cpus = [True, True], sync_lock = False, ran = [], pending = []\<rparr>"

definition cache_ties :: "nat \<Rightarrow> nat \<Rightarrow> nat way" where
  "cache_ties cpu wayno =
     (if cpu = 0 \<and> wayno = hash_way this0
      then \<lparr>obj = this0, lock = False,
            logger = fold (\<lambda>c. push_with_tsc 4 c) [0..<17] \<lparr>ops = []\<rparr>\<rparr>
      else \<lparr>obj = 0, lock = False, logger = \<lparr>ops = []\<rparr>\<rparr>)"

definition obj_ties :: "nat tsc_logged_object" where
  "obj_ties = \<lparr>cache = cache_ties, cpus = [True], sync_lock = False, ran = [], pending = []\<rparr>"

text \<open>
  An \<^verbatim>\<open>mfs_logged_object\<close> with the loggers of \<open>obj0\<close>; on \<open>mfs1\<close> CPU 1 has published
  the end of an operation at 50 and then the start of the next one at 100.
\<close>

definition mfs0 :: "nat mfs_logged_object" where
  "mfs0 = \<lparr>cache = cache0, cpus = [True, True], sync_lock = False, ran = [], pending = [],
           mfs_start_tsc = (\<lambda>_. \<lparr>tsc_value = 0, seq = 0\<rparr>),
           mfs_end_tsc = (\<lambda>_. \<lparr>tsc_value = 0, seq = 0\<rparr>)\<rparr>"

definition mfs1 :: "nat mfs_logged_object" where
  "mfs1 = update_start_tsc 1 100 (update_end_tsc 1 50 mfs0)"

text \<open>
  The operations run and the pending loggers left by a flush that returned, and an object
  with three pending loggers (one of them empty, one not in timestamp order).
\<close>

definition flushed ::
  "error + ('cb, 'z) tsc_logged_object_scheme \<Rightarrow> ('cb op list \<times> 'cb tsc_logger list) option" where
  "flushed r = (case r of Inl e \<Rightarrow> None | Inr s \<Rightarrow> Some (ran s, pending s))"

definition obj_pending :: "nat tsc_logged_object" where
  "obj_pending =
     \<lparr>cache = cache0, cpus = [False, False], sync_lock = True, ran = [],
      pending = [\<lparr>ops = [Op 5 0, Op 15 2]\<rparr>, \<lparr>ops = []\<rparr>, \<lparr>ops = [Op 10 1, Op 10 7, Op 3 9]\<rparr>]\<rparr>"

section \<open>tsc\_logger: push\<close>

lemma rdtscp_Some: "rdtscp feat now = Some t \<Longrightarrow> \<not> feat"
  by (rule rdtscp.raw_induct[where P = "\<lambda>feat now t. \<not> feat"]) (auto split: if_splits)

lemma rdtscp_feature: "rdtscp True now = None"
  using rdtscp_Some[of True now] by (cases "rdtscp True now") auto

lemma rdtscp_no_feature: "rdtscp False now = Some now"
  by (subst rdtscp.simps) simp

lemma push_without_rdtscp: "push False now c l = Some (l\<lparr>ops := ops l @ [Op now c]\<rparr>)"
  by (simp add: push_def rdtscp_no_feature)

text \<open>
  Claim C5 says that \<^verbatim>\<open>push(cb)\<close> terminates for every callable, reading the TSC with
  \<^verbatim>\<open>rdtscp\<close> when the CPU has that instruction, and appends one record. On a CPU that has
  it, the helper \<^verbatim>\<open>rdtscp()\<close> calls itself without end, so \<^verbatim>\<open>push\<close> does not return and
  appends nothing. Without the instruction it appends one record (\<open>push_without_rdtscp\<close>).
\<close>

theorem push_with_rdtscp_never_returns: "push True now c l = None"
  by (simp add: push_def rdtscp_feature)

section \<open>The stable model library keeps the standard's promises\<close>

lemma mset_ins_after: "mset (ins_after cmp x ys) = add_mset x (mset ys)"
  by (induction ys) auto

lemma mset_ins_before: "mset (ins_before cmp x ys) = add_mset x (mset ys)"
  by (induction ys) auto

lemma mset_sort_stable: "mset (sort_stable cmp xs) = mset xs"
  by (induction xs) (auto simp: sort_stable_def mset_ins_before)

lemma set_ins_after: "set (ins_after cmp x ys) = insert x (set ys)"
  using mset_ins_after[of cmp x ys] by (metis set_mset_add_mset_insert set_mset_mset)

lemma set_ins_before: "set (ins_before cmp x ys) = insert x (set ys)"
  using mset_ins_before[of cmp x ys] by (metis set_mset_add_mset_insert set_mset_mset)

lemma sorted_ins_before:
  "sorted_wrt (\<lambda>a b. \<not> compare_tsc b a) ys \<Longrightarrow>
     sorted_wrt (\<lambda>a b. \<not> compare_tsc b a) (ins_before compare_tsc x ys)"
  by (induction ys) (auto simp: set_ins_before compare_tsc_def)

lemma sorted_sort_stable: "sorted_wrt (\<lambda>a b. \<not> compare_tsc b a) (sort_stable compare_tsc xs)"
  by (induction xs) (auto simp: sort_stable_def sorted_ins_before)

lemma fold_best:
  assumes "irreflp cmp" "transp cmp" "b \<in> S" "\<forall>z \<in> S. \<not> cmp b z"
  shows "fold (\<lambda>y best. if cmp best y then y else best) xs b \<in> S \<union> set xs \<and>
         (\<forall>z \<in> S \<union> set xs. \<not> cmp (fold (\<lambda>y best. if cmp best y then y else best) xs b) z)"
  using assms(3,4)
proof (induction xs arbitrary: b S)
  case Nil
  then show ?case by simp
next
  case (Cons y ys)
  define b' where "b' = (if cmp b y then y else b)"
  have in': "b' \<in> insert y S" using Cons.prems(1) by (simp add: b'_def)
  have max': "\<forall>z \<in> insert y S. \<not> cmp b' z"
  proof
    fix z assume z: "z \<in> insert y S"
    show "\<not> cmp b' z"
    proof (cases "cmp b y")
      case True
      then have b': "b' = y" by (simp add: b'_def)
      show ?thesis
      proof
        assume c: "cmp b' z"
        show False
        proof (cases "z = y")
          case True
          with c b' assms(1) show False by (auto simp: irreflp_def)
        next
          case False
          with z have zS: "z \<in> S" by simp
          from \<open>cmp b y\<close> c b' assms(2) have "cmp b z" by (auto simp: transp_def)
          with Cons.prems(2) zS show False by blast
        qed
      qed
    next
      case False
      then have "b' = b" by (simp add: b'_def)
      with False z Cons.prems(2) show ?thesis by auto
    qed
  qed
  from Cons.IH[OF in' max'] show ?case by (simp add: b'_def)
qed

lemma first_top_ok:
  assumes "h \<noteq> []" "irreflp cmp" "transp cmp"
  shows "first_top cmp h \<in> set h \<and> (\<forall>x \<in> set h. \<not> cmp (first_top cmp h) x)"
proof -
  from assms(1) obtain x xs where h: "h = x # xs" by (cases h) auto
  have "\<forall>z \<in> {x}. \<not> cmp x z" using assms(2) by (auto simp: irreflp_def)
  from fold_best[OF assms(2,3) _ this, of xs] show ?thesis by (simp add: h)
qed

lemma first_top_pq_ok: "pq_top_ok \<lparr>std_sort = srt, pq_top = first_top\<rparr>"
  unfolding pq_top_ok_def using first_top_ok by (simp del: first_top.simps) blast

lemma lib_stable_ok: "stdlib_ok lib_stable"
  unfolding stdlib_ok_def lib_stable_def
  by (simp add: first_top_pq_ok std_sort_ok_def mset_sort_stable sorted_sort_stable)

section \<open>libstdc++'s std::sort sorts\<close>

subsection \<open>The insertion sort\<close>

text \<open>
  One step of the insertion sort puts the next element behind the elements of the
  sorted part that are not greater (\<open>ins_after\<close>); \<open>isort\<close> is what all steps leave.
\<close>

definition isort :: "('a \<Rightarrow> 'a \<Rightarrow> bool) \<Rightarrow> 'a list \<Rightarrow> 'a list" where
  "isort cmp xs = foldl (\<lambda>acc x. ins_after cmp x acc) [] xs"

lemma ins_after_snoc_less:
  "cmp x e \<Longrightarrow> ins_after cmp x (P @ [e]) = ins_after cmp x P @ [e]"
  by (induction P) auto

lemma ins_after_snoc_ge:
  fixes f :: "'a \<Rightarrow> 'k::linorder"
  assumes "sorted (map f (P @ [e]))" "f e \<le> f x"
  shows "ins_after (\<lambda>a b. f a < f b) x (P @ [e]) = P @ [e, x]"
  using assms by (induction P) (auto simp: sorted_append)

lemma length_ins_after: "length (ins_after cmp x ys) = Suc (length ys)"
  by (induction ys) auto

lemma sorted_ins_after_key:
  fixes f :: "'a \<Rightarrow> 'k::linorder"
  shows "sorted (map f ys) \<Longrightarrow> sorted (map f (ins_after (\<lambda>a b. f a < f b) x ys))"
  by (induction ys) (auto simp: set_ins_after)

lemma filter_ins_after:
  fixes f :: "'a \<Rightarrow> 'k::linorder"
  shows "sorted (map f ys) \<Longrightarrow>
     filter (\<lambda>y. f y = k) (ins_after (\<lambda>a b. f a < f b) x ys) =
     filter (\<lambda>y. f y = k) ys @ (if f x = k then [x] else [])"
proof (induction ys)
  case Nil
  then show ?case by simp
next
  case (Cons y ys)
  show ?case
  proof (cases "f x < f y")
    case True
    with Cons.prems have "\<forall>z \<in> set (y # ys). f x < f z" by auto
    then have "filter (\<lambda>z. f z = f x) (y # ys) = []" by (auto simp: filter_empty_conv)
    with True show ?thesis by (cases "f x = k") auto
  next
    case False
    with Cons show ?thesis by simp
  qed
qed

lemma linear_insert_loop_sorted:
  fixes f :: "'a \<Rightarrow> 'k::linorder"
  assumes "sorted (map f P)" "\<exists>e \<in> set P. f e \<le> f v"
  shows "linear_insert_loop (\<lambda>a b. f a < f b) v (length P) (P @ j # R) =
         Inr (ins_after (\<lambda>a b. f a < f b) v P @ R)"
  using assms
proof (induction P arbitrary: j R rule: rev_induct)
  case Nil
  then show ?case by simp
next
  case (snoc e P)
  show ?case
  proof (cases "f v < f e")
    case True
    from snoc.prems have s: "sorted (map f P)" by (simp add: sorted_append)
    from snoc.prems True have ex: "\<exists>e \<in> set P. f e \<le> f v" by auto
    have upd: "((P @ [e]) @ j # R)[Suc (length P) := e] = P @ e # e # R"
      by (simp add: list_update_append)
    have nth: "((P @ [e]) @ j # R) ! length P = e"
      by (simp add: nth_append)
    from snoc.IH[OF s ex, of e "e # R"] True show ?thesis
      by (simp add: nth upd ins_after_snoc_less del: append_assoc)
  next
    case False
    then have le: "f e \<le> f v" by simp
    have upd: "((P @ [e]) @ j # R)[Suc (length P) := v] = P @ e # v # R"
      by (simp add: list_update_append)
    have nth: "((P @ [e]) @ j # R) ! length P = e"
      by (simp add: nth_append)
    from False show ?thesis
      using ins_after_snoc_ge[OF snoc.prems(1) le]
      by (simp add: nth upd del: append_assoc)
  qed
qed


lemma unguarded_linear_insert_sorted:
  fixes f :: "'a \<Rightarrow> 'k::linorder"
  assumes "sorted (map f S)" "\<exists>e \<in> set S. f e \<le> f x"
  shows "unguarded_linear_insert (\<lambda>a b. f a < f b) (length S) (S @ x # R) =
         Inr (ins_after (\<lambda>a b. f a < f b) x S @ R)"
  using linear_insert_loop_sorted[OF assms, of x R]
  by (simp add: unguarded_linear_insert_def)

lemma insert_step_sorted:
  fixes f :: "'a \<Rightarrow> 'k::linorder"
  assumes "sorted (map f S)" "S \<noteq> []"
  shows "insert_step (\<lambda>a b. f a < f b) 0 (length S) (S @ x # R) =
         Inr (ins_after (\<lambda>a b. f a < f b) x S @ R)"
proof -
  from assms(2) obtain s0 S' where S: "S = s0 # S'" by (cases S) auto
  show ?thesis
  proof (cases "f x < f s0")
    case True
    have "move_backward 0 (length S) (S @ x # R) = s0 # S @ R"
      by (simp add: move_backward_def S)
    with True show ?thesis by (simp add: insert_step_def S nth_append)
  next
    case False
    then have "\<exists>e \<in> set S. f e \<le> f x" by (auto simp: S)
    from unguarded_linear_insert_sorted[OF assms(1) this, of R] False
    show ?thesis by (simp add: insert_step_def S nth_append)
  qed
qed

lemma sorted_foldl_ins_after:
  fixes f :: "'a \<Rightarrow> 'k::linorder"
  shows "sorted (map f S) \<Longrightarrow> sorted (map f (foldl (\<lambda>acc x. ins_after (\<lambda>a b. f a < f b) x acc) S T))"
  by (induction T arbitrary: S) (auto simp: sorted_ins_after_key)

lemma mset_foldl_ins_after: "mset (foldl (\<lambda>acc x. ins_after cmp x acc) S T) = mset S + mset T"
  by (induction T arbitrary: S) (auto simp: mset_ins_after)

lemma for_each_insert_step:
  fixes f :: "'a \<Rightarrow> 'k::linorder"
  assumes "sorted (map f S)" "S \<noteq> []"
  shows "for_each (insert_step (\<lambda>a b. f a < f b) 0) [length S..<length S + length T] (S @ T @ R) =
         Inr (foldl (\<lambda>acc x. ins_after (\<lambda>a b. f a < f b) x acc) S T @ R)"
  using assms
proof (induction T arbitrary: S)
  case Nil
  then show ?case by simp
next
  case (Cons x T)
  let ?S = "ins_after (\<lambda>a b. f a < f b) x S"
  have s: "sorted (map f ?S)" using Cons.prems(1) by (rule sorted_ins_after_key)
  have ne: "?S \<noteq> []" by (cases S) auto
  have len: "length ?S = Suc (length S)" by (rule length_ins_after)
  have upt: "[length S..<length S + length (x # T)] = length S # [Suc (length S)..<Suc (length S) + length T]"
    by (subst upt_conv_Cons) simp_all
  from Cons.IH[OF s ne, of ] insert_step_sorted[OF Cons.prems, of x "T @ R"]
  show ?case unfolding upt by (simp add: len)
qed

lemma for_each_unguarded:
  fixes f :: "'a \<Rightarrow> 'k::linorder"
  assumes "sorted (map f S)" "\<exists>m \<in> set S. \<forall>x \<in> set T. f m \<le> f x"
  shows "for_each (unguarded_linear_insert (\<lambda>a b. f a < f b)) [length S..<length S + length T] (S @ T @ R) =
         Inr (foldl (\<lambda>acc x. ins_after (\<lambda>a b. f a < f b) x acc) S T @ R)"
  using assms
proof (induction T arbitrary: S)
  case Nil
  then show ?case by simp
next
  case (Cons x T)
  let ?S = "ins_after (\<lambda>a b. f a < f b) x S"
  have s: "sorted (map f ?S)" using Cons.prems(1) by (rule sorted_ins_after_key)
  from Cons.prems(2) have ex: "\<exists>m \<in> set ?S. \<forall>x \<in> set T. f m \<le> f x"
    by (auto simp: set_ins_after)
  from Cons.prems(2) have ex0: "\<exists>e \<in> set S. f e \<le> f x" by auto
  have len: "length ?S = Suc (length S)" by (rule length_ins_after)
  have upt: "[length S..<length S + length (x # T)] = length S # [Suc (length S)..<Suc (length S) + length T]"
    by (subst upt_conv_Cons) simp_all
  from Cons.IH[OF s ex] unguarded_linear_insert_sorted[OF Cons.prems(1) ex0, of "T @ R"]
  show ?case unfolding upt by (simp add: len)
qed

lemma isort_sorted:
  fixes f :: "'a \<Rightarrow> 'k::linorder"
  shows "sorted (map f (isort (\<lambda>a b. f a < f b) xs))"
  unfolding isort_def by (rule sorted_foldl_ins_after) simp

lemma isort_mset: "mset (isort cmp xs) = mset xs"
  by (simp add: isort_def mset_foldl_ins_after)

lemma isort_append:
  "isort cmp (xs @ ys) = foldl (\<lambda>acc x. ins_after cmp x acc) (isort cmp xs) ys"
  by (simp add: isort_def)

lemma isort_stable:
  fixes f :: "'a \<Rightarrow> 'k::linorder"
  shows "filter (\<lambda>y. f y = k) (isort (\<lambda>a b. f a < f b) xs) = filter (\<lambda>y. f y = k) xs"
proof (induction xs rule: rev_induct)
  case Nil
  then show ?case by (simp add: isort_def)
next
  case (snoc x xs)
  have "isort (\<lambda>a b. f a < f b) (xs @ [x]) = ins_after (\<lambda>a b. f a < f b) x (isort (\<lambda>a b. f a < f b) xs)"
    by (simp add: isort_def)
  with snoc filter_ins_after[OF isort_sorted, where k = k and x = x and f = f and xs1 = xs] show ?case by simp
qed

lemma insertion_sort_whole:
  fixes f :: "'a \<Rightarrow> 'k::linorder"
  shows "insertion_sort (\<lambda>a b. f a < f b) 0 (length P) (P @ R) = Inr (isort (\<lambda>a b. f a < f b) P @ R)"
proof (cases P)
  case Nil
  then show ?thesis by (simp add: insertion_sort_def isort_def)
next
  case (Cons x T)
  have "for_each (insert_step (\<lambda>a b. f a < f b) 0) [length [x]..<length [x] + length T] ([x] @ T @ R) =
        Inr (foldl (\<lambda>acc x. ins_after (\<lambda>a b. f a < f b) x acc) [x] T @ R)"
    by (rule for_each_insert_step) simp_all
  then show ?thesis by (simp add: insertion_sort_def Cons isort_def)
qed

lemma final_insertion_sort_isort:
  fixes f :: "'a \<Rightarrow> 'k::linorder"
  assumes "S_threshold < length ys \<longrightarrow> (\<exists>i < S_threshold. \<forall>j. S_threshold \<le> j \<and> j < length ys \<longrightarrow> f (ys ! i) \<le> f (ys ! j))"
  shows "final_insertion_sort (\<lambda>a b. f a < f b) 0 (length ys) ys = Inr (isort (\<lambda>a b. f a < f b) ys)"
proof (cases "S_threshold < length ys")
  case False
  with insertion_sort_whole[of f ys "[]"] show ?thesis by (simp add: final_insertion_sort_def)
next
  case True
  define P where "P = take S_threshold ys"
  define T where "T = drop S_threshold ys"
  have ys: "ys = P @ T" by (simp add: P_def T_def)
  have lenP: "length P = S_threshold" using True by (simp add: P_def)
  let ?S = "isort (\<lambda>a b. f a < f b) P"
  have lenS: "length ?S = S_threshold" using lenP isort_mset[of "\<lambda>a b. f a < f b" P]
    by (metis size_mset)
  from assms True obtain i where i: "i < S_threshold"
    and le: "\<forall>j. S_threshold \<le> j \<and> j < length ys \<longrightarrow> f (ys ! i) \<le> f (ys ! j)" by blast
  have inP: "ys ! i \<in> set P" using i lenP by (metis ys nth_append nth_mem)
  then have inS: "ys ! i \<in> set ?S" using isort_mset[of "\<lambda>a b. f a < f b" P] by (metis set_mset_mset)
  have "\<forall>x \<in> set T. f (ys ! i) \<le> f x"
  proof
    fix x assume "x \<in> set T"
    then obtain k where k: "k < length T" "x = T ! k" by (auto simp: in_set_conv_nth)
    then have "x = ys ! (S_threshold + k)" by (simp add: ys nth_append lenP)
    moreover have "S_threshold + k < length ys" using k lenP by (simp add: ys)
    ultimately show "f (ys ! i) \<le> f x" using le by simp
  qed
  with inS have ex: "\<exists>m \<in> set ?S. \<forall>x \<in> set T. f m \<le> f x" by blast
  have a: "insertion_sort (\<lambda>a b. f a < f b) 0 (0 + S_threshold) ys = Inr (?S @ T)"
    using insertion_sort_whole[of f P T] by (simp add: ys lenP)
  have b: "unguarded_insertion_sort (\<lambda>a b. f a < f b) (0 + S_threshold) (length ys) (?S @ T) =
           Inr (foldl (\<lambda>acc x. ins_after (\<lambda>a b. f a < f b) x acc) ?S T)"
    using for_each_unguarded[OF isort_sorted ex, of "[]"] lenS lenP
    by (simp add: unguarded_insertion_sort_def ys)
  have "isort (\<lambda>a b. f a < f b) ys = foldl (\<lambda>acc x. ins_after (\<lambda>a b. f a < f b) x acc) ?S T"
    by (simp add: ys isort_append)
  with a b True show ?thesis by (simp add: final_insertion_sort_def)
qed

subsection \<open>The partition\<close>

lemma scan_up_result:
  assumes "first \<le> k" "k < length xs" "\<not> lt (xs ! k) (xs ! pivot)"
  shows "\<exists>u. scan_up lt pivot first xs = Inr u \<and> first \<le> u \<and> u \<le> k \<and>
             \<not> lt (xs ! u) (xs ! pivot) \<and> (\<forall>i. first \<le> i \<and> i < u \<longrightarrow> lt (xs ! i) (xs ! pivot))"
  using assms
proof (induction "k - first" arbitrary: first)
  case 0
  then have "first = k" by simp
  with 0 show ?case by (subst scan_up.simps) auto
next
  case (Suc d)
  show ?case
  proof (cases "lt (xs ! first) (xs ! pivot)")
    case False
    with Suc.prems show ?thesis by (subst scan_up.simps) auto
  next
    case True
    from Suc.hyps(2) have d: "d = k - Suc first" and le: "Suc first \<le> k" by simp_all
    from Suc.hyps(1)[OF d le Suc.prems(2,3)] obtain u where
      u: "scan_up lt pivot (Suc first) xs = Inr u" "Suc first \<le> u" "u \<le> k"
         "\<not> lt (xs ! u) (xs ! pivot)" "\<forall>i. Suc first \<le> i \<and> i < u \<longrightarrow> lt (xs ! i) (xs ! pivot)"
      by blast
    have "\<forall>i. first \<le> i \<and> i < u \<longrightarrow> lt (xs ! i) (xs ! pivot)"
    proof (intro allI impI)
      fix i assume "first \<le> i \<and> i < u"
      then show "lt (xs ! i) (xs ! pivot)" using True u(5) by (cases "i = first") auto
    qed
    with u True Suc.prems show ?thesis by (subst scan_up.simps) auto
  qed
qed

lemma scan_down_result:
  assumes "k \<le> l" "\<not> lt (xs ! pivot) (xs ! k)"
  shows "\<exists>d. scan_down lt pivot l xs = Inr d \<and> k \<le> d \<and> d \<le> l \<and>
             \<not> lt (xs ! pivot) (xs ! d) \<and> (\<forall>j. d < j \<and> j \<le> l \<longrightarrow> lt (xs ! pivot) (xs ! j))"
  using assms
proof (induction l)
  case 0
  then show ?case by auto
next
  case (Suc l)
  show ?case
  proof (cases "lt (xs ! pivot) (xs ! Suc l)")
    case False
    with Suc.prems show ?thesis by auto
  next
    case True
    with Suc.prems have "k \<noteq> Suc l" by auto
    with Suc.prems have "k \<le> l" by simp
    from Suc.IH[OF this Suc.prems(2)] obtain d where
      d: "scan_down lt pivot l xs = Inr d" "k \<le> d" "d \<le> l" "\<not> lt (xs ! pivot) (xs ! d)"
         "\<forall>j. d < j \<and> j \<le> l \<longrightarrow> lt (xs ! pivot) (xs ! j)" by blast
    have "\<forall>j. d < j \<and> j \<le> Suc l \<longrightarrow> lt (xs ! pivot) (xs ! j)"
    proof (intro allI impI)
      fix j assume "d < j \<and> j \<le> Suc l"
      then show "lt (xs ! pivot) (xs ! j)" using True d(5) by (cases "j = Suc l") auto
    qed
    with d True show ?thesis by auto
  qed
qed

lemma iter_swap_length [simp]: "length (iter_swap i j xs) = length xs"
  by (simp add: iter_swap_def)

lemma iter_swap_mset: "i < length xs \<Longrightarrow> j < length xs \<Longrightarrow> mset (iter_swap i j xs) = mset xs"
  unfolding iter_swap_def by (rule mset_swap[of j xs i])

lemma iter_swap_nth:
  "i < length xs \<Longrightarrow> j < length xs \<Longrightarrow> k < length xs \<Longrightarrow>
   iter_swap i j xs ! k = (if k = j then xs ! i else if k = i then xs ! j else xs ! k)"
  by (auto simp: iter_swap_def nth_list_update)

lemma unguarded_partition_correct:
  fixes f :: "'a \<Rightarrow> 'k::linorder"
  assumes "pv < fs" "pv < lst" "lst \<le> n0" "n0 \<le> length xs"
    and "\<forall>i. pv < i \<and> i < fs \<longrightarrow> f (xs ! i) \<le> f (xs ! pv)"
    and "\<forall>j. lst \<le> j \<and> j < n0 \<longrightarrow> f (xs ! pv) \<le> f (xs ! j)"
    and "\<exists>k. fs \<le> k \<and> k < n0 \<and> f (xs ! pv) \<le> f (xs ! k)"
  shows "\<exists>c ys. unguarded_partition (\<lambda>a b. f a < f b) fs lst pv xs = Inr (c, ys) \<and>
           fs \<le> c \<and> c < n0 \<and> length ys = length xs \<and> mset ys = mset xs \<and>
           (\<forall>k < length xs. k \<le> pv \<or> n0 \<le> k \<longrightarrow> ys ! k = xs ! k) \<and>
           (\<forall>i. pv < i \<and> i < c \<longrightarrow> f (ys ! i) \<le> f (ys ! pv)) \<and>
           (\<forall>j. c \<le> j \<and> j < n0 \<longrightarrow> f (ys ! pv) \<le> f (ys ! j))"
  using assms
proof (induction lst arbitrary: fs xs rule: less_induct)
  case (less lst)
  let ?lt = "\<lambda>a b. f a < f b"
  from less.prems(7) obtain k where k: "fs \<le> k" "k < n0" "f (xs ! pv) \<le> f (xs ! k)" by blast
  from k less.prems(4) have klen: "k < length xs" by simp
  from k(3) have knl: "\<not> ?lt (xs ! k) (xs ! pv)" by simp
  from scan_up_result[of fs k xs ?lt pv, OF k(1) klen knl] obtain u where
    u: "scan_up ?lt pv fs xs = Inr u" "fs \<le> u" "u \<le> k" "f (xs ! pv) \<le> f (xs ! u)"
       "\<forall>i. fs \<le> i \<and> i < u \<longrightarrow> f (xs ! i) < f (xs ! pv)"
    by (auto simp: not_less)
  from less.prems(2) have l0: "lst \<noteq> 0" and pl: "pv \<le> lst - 1" by simp_all
  have "\<not> ?lt (xs ! pv) (xs ! pv)" by simp
  from scan_down_result[of pv "lst - 1" ?lt xs pv, OF pl this] obtain d where
    d: "scan_down ?lt pv (lst - 1) xs = Inr d" "pv \<le> d" "d \<le> lst - 1" "f (xs ! d) \<le> f (xs ! pv)"
       "\<forall>j. d < j \<and> j \<le> lst - 1 \<longrightarrow> f (xs ! pv) < f (xs ! j)"
    by (auto simp: not_less)
  show ?case
  proof (cases "u < d")
    case False
    have res: "unguarded_partition ?lt fs lst pv xs = Inr (u, xs)"
      using u(1) d(1) l0 False by (subst unguarded_partition.simps) simp
    have left: "\<forall>i. pv < i \<and> i < u \<longrightarrow> f (xs ! i) \<le> f (xs ! pv)"
    proof (intro allI impI)
      fix i assume i: "pv < i \<and> i < u"
      show "f (xs ! i) \<le> f (xs ! pv)"
      proof (cases "i < fs")
        case True
        with i less.prems(5) show ?thesis by blast
      next
        case False
        with i u(5) show ?thesis by (simp add: less_imp_le)
      qed
    qed
    have right: "\<forall>j. u \<le> j \<and> j < n0 \<longrightarrow> f (xs ! pv) \<le> f (xs ! j)"
    proof (intro allI impI)
      fix j assume j: "u \<le> j \<and> j < n0"
      consider "lst \<le> j" | "d < j" "j \<le> lst - 1" | "j = u" "j \<le> d"
        using j False by linarith
      then show "f (xs ! pv) \<le> f (xs ! j)"
      proof cases
        case 1
        with j less.prems(6) show ?thesis by blast
      next
        case 2
        with d(5) show ?thesis by (simp add: less_imp_le)
      next
        case 3
        with u(4) show ?thesis by simp
      qed
    qed
    from res left right u(2,3) k(2) show ?thesis by auto
  next
    case True
    let ?xs = "iter_swap u d xs"
    have dl: "d < lst" using d(3) l0 by simp
    have dn: "d < n0" using dl less.prems(3) by simp
    have ulen: "u < length xs" and dlen: "d < length xs" and pvlen: "pv < length xs"
      using True dn less.prems(1,4) u(2) by simp_all
    have pvu: "pv < u" using less.prems(1) u(2) by simp
    have pvs: "?xs ! pv = xs ! pv"
      using pvu True by (simp add: iter_swap_nth ulen dlen pvlen)
    have res: "unguarded_partition ?lt fs lst pv xs = unguarded_partition ?lt (Suc u) d pv ?xs"
      using u(1) d(1) l0 True by (subst unguarded_partition.simps) simp
    have p1: "pv < Suc u" using pvu by simp
    have p2: "pv < d" using pvu True by simp
    have p3: "d \<le> n0" using dn by simp
    have p4: "n0 \<le> length ?xs" using less.prems(4) by simp
    have p5: "\<forall>i. pv < i \<and> i < Suc u \<longrightarrow> f (?xs ! i) \<le> f (?xs ! pv)"
    proof (intro allI impI)
      fix i assume i: "pv < i \<and> i < Suc u"
      then have ilen: "i < length xs" using ulen by simp
      show "f (?xs ! i) \<le> f (?xs ! pv)"
      proof (cases "i = u")
        case True
        with \<open>u < d\<close> d(4) show ?thesis by (simp add: pvs iter_swap_nth ulen dlen ilen)
      next
        case False
        with i have iu: "i < u" by simp
        have "f (xs ! i) \<le> f (xs ! pv)"
        proof (cases "i < fs")
          case True
          with i less.prems(5) show ?thesis by blast
        next
          case False
          with iu u(5) show ?thesis by (simp add: less_imp_le)
        qed
        with iu \<open>u < d\<close> show ?thesis by (simp add: pvs iter_swap_nth ulen dlen ilen)
      qed
    qed
    have p6: "\<forall>j. d \<le> j \<and> j < n0 \<longrightarrow> f (?xs ! pv) \<le> f (?xs ! j)"
    proof (intro allI impI)
      fix j assume j: "d \<le> j \<and> j < n0"
      then have jlen: "j < length xs" using less.prems(4) by simp
      show "f (?xs ! pv) \<le> f (?xs ! j)"
      proof (cases "j = d")
        case True
        with u(4) show ?thesis by (simp add: pvs iter_swap_nth ulen dlen jlen)
      next
        case False
        with j have dj: "d < j" by simp
        have "f (xs ! pv) \<le> f (xs ! j)"
        proof (cases "lst \<le> j")
          case True
          with j less.prems(6) show ?thesis by blast
        next
          case False
          with dj d(5) show ?thesis by (simp add: less_imp_le)
        qed
        with dj \<open>u < d\<close> show ?thesis by (simp add: pvs iter_swap_nth ulen dlen jlen)
      qed
    qed
    have p7: "\<exists>k. Suc u \<le> k \<and> k < n0 \<and> f (?xs ! pv) \<le> f (?xs ! k)"
      using True dn u(4) by (intro exI[of _ d]) (simp add: pvs iter_swap_nth ulen dlen)
    from less.IH[OF dl p1 p2 p3 p4 p5 p6 p7] obtain c ys where
      c: "unguarded_partition ?lt (Suc u) d pv ?xs = Inr (c, ys)" "Suc u \<le> c" "c < n0"
         "length ys = length ?xs" "mset ys = mset ?xs"
         "\<forall>k < length ?xs. k \<le> pv \<or> n0 \<le> k \<longrightarrow> ys ! k = ?xs ! k"
         "\<forall>i. pv < i \<and> i < c \<longrightarrow> f (ys ! i) \<le> f (ys ! pv)"
         "\<forall>j. c \<le> j \<and> j < n0 \<longrightarrow> f (ys ! pv) \<le> f (ys ! j)" by blast
    have frame: "\<forall>k < length xs. k \<le> pv \<or> n0 \<le> k \<longrightarrow> ys ! k = xs ! k"
    proof (intro allI impI)
      fix k assume kl: "k < length xs" and kk: "k \<le> pv \<or> n0 \<le> k"
      then have "k \<noteq> u" "k \<noteq> d" using pvu p2 dn \<open>u < d\<close> by auto
      then have "?xs ! k = xs ! k" by (simp add: iter_swap_nth ulen dlen kl)
      moreover from c(6) kl kk have "ys ! k = ?xs ! k" by auto
      ultimately show "ys ! k = xs ! k" by simp
    qed
    from c(2) u(2) have "fs \<le> c" by simp
    with res c frame iter_swap_mset[OF ulen dlen] show ?thesis by auto
  qed
qed

lemma move_median_to_first_result:
  fixes f :: "'a \<Rightarrow> 'k::linorder"
  assumes "r < a" "a < b" "b < c" "c < length xs"
  shows "\<exists>m \<in> {a, b, c}. move_median_to_first (\<lambda>a b. f a < f b) r a b c xs = iter_swap r m xs \<and>
           (\<exists>k \<in> {a, b, c}. k \<noteq> m \<and> f (xs ! m) \<le> f (xs ! k))"
  unfolding move_median_to_first_def using assms by (auto simp: not_less)

lemma move_median_to_first_sentinel:
  fixes f :: "'a \<Rightarrow> 'k::linorder"
  assumes "r < a" "a < b" "b < c" "c < length xs"
  defines "ys \<equiv> move_median_to_first (\<lambda>a b. f a < f b) r a b c xs"
  shows "length ys = length xs \<and> mset ys = mset xs \<and>
         (\<forall>k < length xs. k < r \<or> c < k \<longrightarrow> ys ! k = xs ! k) \<and>
         (\<exists>k. a \<le> k \<and> k \<le> c \<and> f (ys ! r) \<le> f (ys ! k))"
proof -
  from move_median_to_first_result[OF assms(1-4), of f] obtain m k where
    m: "m \<in> {a, b, c}" "ys = iter_swap r m xs" and k: "k \<in> {a, b, c}" "k \<noteq> m" "f (xs ! m) \<le> f (xs ! k)"
    unfolding ys_def by blast
  have rl: "r < length xs" and ml: "m < length xs" and kl: "k < length xs"
    using assms(1-4) m(1) k(1) by auto
  have rm: "r \<noteq> m" "r \<noteq> k" using assms(1-4) m(1) k(1) by auto
  have "ys ! r = xs ! m" using rm by (simp add: m(2) iter_swap_nth rl ml)
  moreover have "ys ! k = xs ! k" using rm k(2) by (simp add: m(2) iter_swap_nth rl ml kl)
  moreover have "a \<le> k \<and> k \<le> c" using assms(1-4) k(1) by auto
  ultimately have ex: "\<exists>k. a \<le> k \<and> k \<le> c \<and> f (ys ! r) \<le> f (ys ! k)" using k(3) by auto
  have fr: "\<forall>j < length xs. j < r \<or> c < j \<longrightarrow> ys ! j = xs ! j"
  proof (intro allI impI)
    fix j assume jl: "j < length xs" and "j < r \<or> c < j"
    then have "j \<noteq> r" "j \<noteq> m" using assms(1-4) m(1) by auto
    then show "ys ! j = xs ! j" by (simp add: m(2) iter_swap_nth rl ml jl)
  qed
  from ex fr show ?thesis by (simp add: m(2) iter_swap_mset[OF rl ml])
qed

lemma unguarded_partition_pivot_correct:
  fixes f :: "'a \<Rightarrow> 'k::linorder"
  assumes big: "S_threshold < lst - first" and len: "lst \<le> length xs"
  shows "\<exists>c ys. unguarded_partition_pivot (\<lambda>a b. f a < f b) first lst xs = Inr (c, ys) \<and>
           first < c \<and> c < lst \<and> length ys = length xs \<and> mset ys = mset xs \<and>
           (\<forall>k < length xs. k < first \<or> lst \<le> k \<longrightarrow> ys ! k = xs ! k) \<and>
           (\<forall>i j. first \<le> i \<and> i < c \<and> c \<le> j \<and> j < lst \<longrightarrow> f (ys ! i) \<le> f (ys ! j))"
proof -
  let ?lt = "\<lambda>a b. f a < f b"
  define mid where "mid = first + (lst - first) div 2"
  define xs1 where "xs1 = move_median_to_first ?lt first (first + 1) mid (lst - 1) xs"
  from big have o: "first < first + 1" "first + 1 < mid" "mid < lst - 1" "lst - 1 < length xs"
    using len by (simp_all add: mid_def S_threshold_def)
  from move_median_to_first_sentinel[OF o, of f] obtain k where
    x1: "length xs1 = length xs" "mset xs1 = mset xs"
        "\<forall>j < length xs. j < first \<or> lst - 1 < j \<longrightarrow> xs1 ! j = xs ! j"
    and k: "first + 1 \<le> k" "k \<le> lst - 1" "f (xs1 ! first) \<le> f (xs1 ! k)"
    unfolding xs1_def by blast
  have p1: "first < first + 1" by simp
  have p2: "first < lst" using big by simp
  have p3: "lst \<le> lst" by simp
  have p4: "lst \<le> length xs1" using len x1(1) by simp
  have p5: "\<forall>i. first < i \<and> i < first + 1 \<longrightarrow> f (xs1 ! i) \<le> f (xs1 ! first)" by auto
  have p6: "\<forall>j. lst \<le> j \<and> j < lst \<longrightarrow> f (xs1 ! first) \<le> f (xs1 ! j)" by auto
  have p7: "\<exists>k. first + 1 \<le> k \<and> k < lst \<and> f (xs1 ! first) \<le> f (xs1 ! k)"
    using k p2 by (intro exI[of _ k]) simp
  from unguarded_partition_correct[OF p1 p2 p3 p4 p5 p6 p7] obtain c ys where
    c: "unguarded_partition ?lt (first + 1) lst first xs1 = Inr (c, ys)" "first + 1 \<le> c" "c < lst"
       "length ys = length xs1" "mset ys = mset xs1"
       "\<forall>k < length xs1. k \<le> first \<or> lst \<le> k \<longrightarrow> ys ! k = xs1 ! k"
       "\<forall>i. first < i \<and> i < c \<longrightarrow> f (ys ! i) \<le> f (ys ! first)"
       "\<forall>j. c \<le> j \<and> j < lst \<longrightarrow> f (ys ! first) \<le> f (ys ! j)" by blast
  have res: "unguarded_partition_pivot ?lt first lst xs = Inr (c, ys)"
    using c(1) by (simp add: unguarded_partition_pivot_def xs1_def mid_def)
  have frame: "\<forall>k < length xs. k < first \<or> lst \<le> k \<longrightarrow> ys ! k = xs ! k"
  proof (intro allI impI)
    fix j assume jl: "j < length xs" and jj: "j < first \<or> lst \<le> j"
    then have "ys ! j = xs1 ! j" using c(6) x1(1) by auto
    moreover have "j < first \<or> lst - 1 < j" using jj p2 by linarith
    with x1(3) jl have "xs1 ! j = xs ! j" by blast
    ultimately show "ys ! j = xs ! j" by simp
  qed
  have part: "\<forall>i j. first \<le> i \<and> i < c \<and> c \<le> j \<and> j < lst \<longrightarrow> f (ys ! i) \<le> f (ys ! j)"
  proof (intro allI impI)
    fix i j assume ij: "first \<le> i \<and> i < c \<and> c \<le> j \<and> j < lst"
    have "f (ys ! i) \<le> f (ys ! first)"
    proof (cases "i = first")
      case True
      then show ?thesis by simp
    next
      case False
      with ij c(7) show ?thesis by simp
    qed
    moreover have "f (ys ! first) \<le> f (ys ! j)" using ij c(8) by simp
    ultimately show "f (ys ! i) \<le> f (ys ! j)" by (rule order_trans)
  qed
  from res c(2,3,4,5) x1(1,2) frame part show ?thesis by auto
qed

text \<open>Elements of a range that is permuted in place.\<close>

lemma range_elements:
  assumes len: "length ys = length xs" and ms: "mset ys = mset xs"
    and fr: "\<forall>k < length xs. k < first \<or> lst \<le> k \<longrightarrow> ys ! k = xs ! k"
    and fl: "first \<le> lst" "lst \<le> length xs"
  shows "mset (take (lst - first) (drop first ys)) = mset (take (lst - first) (drop first xs))"
proof -
  have t: "take first ys = take first xs"
    using len fl fr by (intro nth_equalityI) auto
  have d: "drop lst ys = drop lst xs"
    using len fl fr by (intro nth_equalityI) auto
  have sx: "xs = take first xs @ take (lst - first) (drop first xs) @ drop lst xs"
    using fl by (metis append_take_drop_id drop_drop take_drop add.commute le_add_diff_inverse)
  have sy: "ys = take first ys @ take (lst - first) (drop first ys) @ drop lst ys"
    using fl by (metis append_take_drop_id drop_drop take_drop add.commute le_add_diff_inverse)
  have my: "mset ys = mset (take first ys) + (mset (take (lst - first) (drop first ys)) + mset (drop lst ys))"
    using sy by (metis mset_append)
  have mx: "mset xs = mset (take first xs) + (mset (take (lst - first) (drop first xs)) + mset (drop lst xs))"
    using sx by (metis mset_append)
  from my mx ms show ?thesis by (simp add: t d)
qed

lemma range_nth:
  assumes len: "length ys = length xs" and ms: "mset ys = mset xs"
    and fr: "\<forall>k < length xs. k < first \<or> lst \<le> k \<longrightarrow> ys ! k = xs ! k"
    and fl: "first \<le> lst" "lst \<le> length xs"
    and j: "first \<le> j" "j < lst"
  shows "\<exists>j'. first \<le> j' \<and> j' < lst \<and> ys ! j = xs ! j'"
proof -
  let ?Y = "take (lst - first) (drop first ys)" and ?X = "take (lst - first) (drop first xs)"
  have "?Y ! (j - first) = ys ! j" using j fl len by simp
  moreover have "j - first < length ?Y" using j fl len by simp
  ultimately have "ys ! j \<in> set ?Y" by (metis nth_mem)
  also have "set ?Y = set ?X" using range_elements[OF len ms fr fl] by (metis set_mset_mset)
  finally obtain i where i: "i < length ?X" "?X ! i = ys ! j" by (auto simp: in_set_conv_nth)
  then have "xs ! (first + i) = ys ! j" using fl by simp
  moreover have "first + i < lst" using i(1) fl by simp
  ultimately show ?thesis by (intro exI[of _ "first + i"]) simp
qed

subsection \<open>The heap\<close>

text \<open>Heap order on the positions of a range, and the descendants of a position.\<close>

definition heap_from :: "('a \<Rightarrow> 'k::linorder) \<Rightarrow> nat \<Rightarrow> nat \<Rightarrow> nat \<Rightarrow> 'a list \<Rightarrow> bool" where
  "heap_from f first len tp xs \<longleftrightarrow>
     (\<forall>i. 0 < i \<and> i < len \<and> tp \<le> (i - 1) div 2 \<longrightarrow>
          f (xs ! (first + i)) \<le> f (xs ! (first + (i - 1) div 2)))"

function below :: "nat \<Rightarrow> nat \<Rightarrow> bool" where
  "below tp h = (if h = tp then True else if tp < h then below tp ((h - 1) div 2) else False)"
  by pat_completeness auto

termination
  by (relation "measure snd") auto

declare below.simps [simp del]

lemma below_refl: "below tp tp"
  by (subst below.simps) simp

lemma below_parent: "below tp h \<Longrightarrow> h \<noteq> tp \<Longrightarrow> tp < h \<and> below tp ((h - 1) div 2)"
  by (subst (asm) below.simps) (auto split: if_splits)

lemma below_le: "below tp h \<Longrightarrow> tp \<le> h"
  by (subst (asm) below.simps) (auto split: if_splits)

lemma below_child: "below tp h \<Longrightarrow> (c - 1) div 2 = h \<Longrightarrow> h < c \<Longrightarrow> below tp c"
  using below_le[of tp h] by (subst below.simps) auto

lemma below_parent_le: "below tp h \<Longrightarrow> h \<noteq> tp \<Longrightarrow> tp \<le> (h - 1) div 2"
  using below_parent below_le by blast

lemma update_hole_mset:
  assumes "h < length xs" "p < length xs" "h \<noteq> p"
  shows "mset (xs[h := xs ! p, p := v]) = mset (xs[h := v])"
proof -
  let ?b = "xs[h := v]"
  have "?b[p := ?b ! h, h := ?b ! p] = xs[h := xs ! p, p := v]"
    using assms by (simp add: list_update_swap[of h p])
  moreover have "mset (?b[p := ?b ! h, h := ?b ! p]) = mset ?b"
    by (rule mset_swap) (use assms in simp_all)
  ultimately show ?thesis by simp
qed

lemma push_heap_correct:
  fixes f :: "'a \<Rightarrow> 'k::linorder"
  assumes "first + len \<le> length xs" "h < len" "below tp h" "heap_from f first len tp xs"
    and "\<forall>c. 0 < c \<and> c < len \<and> (c - 1) div 2 = h \<longrightarrow> f (xs ! (first + c)) \<le> f v"
  shows "length (push_heap (\<lambda>a b. f a < f b) first h tp v xs) = length xs \<and>
         heap_from f first len tp (push_heap (\<lambda>a b. f a < f b) first h tp v xs) \<and>
         mset (push_heap (\<lambda>a b. f a < f b) first h tp v xs) = mset (xs[first + h := v]) \<and>
         (\<forall>k < length xs. k < first \<or> first + len \<le> k \<longrightarrow>
            push_heap (\<lambda>a b. f a < f b) first h tp v xs ! k = xs ! k)"
  using assms
proof (induction h arbitrary: xs rule: less_induct)
  case (less h)
  let ?lt = "\<lambda>a b. f a < f b"
  let ?p = "(h - 1) div 2"
  note hp = less.prems(4)[unfolded heap_from_def, rule_format]
  show ?case
  proof (cases "tp < h \<and> f (xs ! (first + ?p)) < f v")
    case False
    let ?ys = "xs[first + h := v]"
    have res: "push_heap ?lt first h tp v xs = ?ys"
      using False by (subst push_heap.simps) auto
    have "heap_from f first len tp ?ys"
      unfolding heap_from_def
    proof (intro allI impI)
      fix i assume i: "0 < i \<and> i < len \<and> tp \<le> (i - 1) div 2"
      have il: "first + i < length xs" "first + (i - 1) div 2 < length xs"
        using i less.prems(1) by auto
      show "f (?ys ! (first + i)) \<le> f (?ys ! (first + (i - 1) div 2))"
      proof (cases "i = h")
        case True
        with i have "(i - 1) div 2 \<noteq> h" by auto
        moreover from True i False have "f v \<le> f (xs ! (first + ?p))"
          using below_le[OF less.prems(3)] by (cases "tp < h") auto
        ultimately show ?thesis using True il by (simp add: nth_list_update)
      next
        case ne: False
        show ?thesis
        proof (cases "(i - 1) div 2 = h")
          case True
          with i less.prems(5) have "f (xs ! (first + i)) \<le> f v" by blast
          with True ne il show ?thesis by (simp add: nth_list_update)
        next
          case False
          with ne il hp[OF i] show ?thesis by (simp add: nth_list_update)
        qed
      qed
    qed
    then show ?thesis using res less.prems(2) by (simp add: nth_list_update)
  next
    case True
    let ?xs = "xs[first + h := xs ! (first + ?p)]"
    from True have th: "tp < h" and lt: "f (xs ! (first + ?p)) < f v" by simp_all
    have res: "push_heap ?lt first h tp v xs = push_heap ?lt first ?p tp v ?xs"
      using True by (subst push_heap.simps) simp
    have ph: "?p < h" using th by auto
    from below_parent[OF less.prems(3)] th have bp: "below tp ?p" by simp
    from below_le[OF bp] have tp: "tp \<le> ?p" .
    have hl: "first + h < length xs" "first + ?p < length xs"
      using less.prems(1,2) ph by auto
    have q1: "first + len \<le> length ?xs" using less.prems(1) by simp
    have q2: "?p < len" using ph less.prems(2) by simp
    have hh: "f (xs ! (first + h)) \<le> f (xs ! (first + ?p))"
      using hp[of h] th tp less.prems(2) by simp
    have q4: "heap_from f first len tp ?xs"
      unfolding heap_from_def
    proof (intro allI impI)
      fix i assume i: "0 < i \<and> i < len \<and> tp \<le> (i - 1) div 2"
      have il: "first + i < length xs" "first + (i - 1) div 2 < length xs"
        using i less.prems(1) by auto
      show "f (?xs ! (first + i)) \<le> f (?xs ! (first + (i - 1) div 2))"
      proof (cases "i = h")
        case True
        with ph il show ?thesis by (simp add: nth_list_update)
      next
        case ne: False
        show ?thesis
        proof (cases "(i - 1) div 2 = h")
          case True
          from hp[OF i] True have "f (xs ! (first + i)) \<le> f (xs ! (first + h))" by simp
          with hh have "f (xs ! (first + i)) \<le> f (xs ! (first + ?p))" by simp
          with True ne il show ?thesis by (simp add: nth_list_update)
        next
          case False
          with ne il hp[OF i] show ?thesis by (simp add: nth_list_update)
        qed
      qed
    qed
    have q5: "\<forall>c. 0 < c \<and> c < len \<and> (c - 1) div 2 = ?p \<longrightarrow> f (?xs ! (first + c)) \<le> f v"
    proof (intro allI impI)
      fix c assume c: "0 < c \<and> c < len \<and> (c - 1) div 2 = ?p"
      have cl: "first + c < length xs" using c less.prems(1) by auto
      show "f (?xs ! (first + c)) \<le> f v"
      proof (cases "c = h")
        case True
        with lt cl show ?thesis by (simp add: nth_list_update)
      next
        case False
        have "f (xs ! (first + c)) \<le> f (xs ! (first + ?p))"
          using hp[of c] c tp by simp
        with lt False cl show ?thesis by (simp add: nth_list_update)
      qed
    qed
    from less.IH[OF ph q1 q2 bp q4 q5]
    have ih: "length (push_heap ?lt first ?p tp v ?xs) = length ?xs"
      "heap_from f first len tp (push_heap ?lt first ?p tp v ?xs)"
      "mset (push_heap ?lt first ?p tp v ?xs) = mset (?xs[first + ?p := v])"
      "\<forall>k < length ?xs. k < first \<or> first + len \<le> k \<longrightarrow> push_heap ?lt first ?p tp v ?xs ! k = ?xs ! k"
      by simp_all
    have ms: "mset (?xs[first + ?p := v]) = mset (xs[first + h := v])"
      by (rule update_hole_mset) (use hl ph in simp_all)
    have fr: "\<forall>k < length xs. k < first \<or> first + len \<le> k \<longrightarrow> push_heap ?lt first ?p tp v ?xs ! k = xs ! k"
    proof (intro allI impI)
      fix k assume k: "k < length xs" "k < first \<or> first + len \<le> k"
      then have "k \<noteq> first + h" using less.prems(2) by auto
      then have "?xs ! k = xs ! k" by simp
      moreover have "k < length ?xs" using k(1) by simp
      with ih(4) k(2) have "push_heap ?lt first ?p tp v ?xs ! k = ?xs ! k" by blast
      ultimately show "push_heap ?lt first ?p tp v ?xs ! k = xs ! k" by simp
    qed
    from ih(1,2) ms ih(3) fr show ?thesis unfolding res by simp
  qed
qed

lemma child_cases: "0 < s \<Longrightarrow> (s - 1) div 2 = h \<Longrightarrow> s = 2 * h + 1 \<or> s = 2 * h + (2::nat)"
  by presburger

lemma hole_step:
  fixes f :: "'a \<Rightarrow> 'k::linorder"
  assumes len: "first + len \<le> length xs" and bel: "below h0 h"
    and c: "c < len" "(c - 1) div 2 = h" "h < c"
    and edges: "\<forall>i. 0 < i \<and> i < len \<and> h0 \<le> (i - 1) div 2 \<and> ((i - 1) div 2 = h0 \<longrightarrow> h \<noteq> h0) \<longrightarrow>
                  f (xs ! (first + i)) \<le> f (xs ! (first + (i - 1) div 2))"
    and larger: "\<forall>s. 0 < s \<and> s < len \<and> (s - 1) div 2 = h \<longrightarrow> f (xs ! (first + s)) \<le> f (xs ! (first + c))"
  shows "heap_from f first len h0 (xs[first + h := xs ! (first + c)])"
  unfolding heap_from_def
proof (intro allI impI)
  let ?xs = "xs[first + h := xs ! (first + c)]"
  fix i assume i: "0 < i \<and> i < len \<and> h0 \<le> (i - 1) div 2"
  note e = edges[rule_format]
  have il: "first + i < length xs" "first + (i - 1) div 2 < length xs" "first + h < length xs"
    using i len c by auto
  show "f (?xs ! (first + i)) \<le> f (?xs ! (first + (i - 1) div 2))"
  proof (cases "(i - 1) div 2 = h")
    case True
    with i have "i \<noteq> h" by auto
    moreover from larger i True have "f (xs ! (first + i)) \<le> f (xs ! (first + c))" by blast
    ultimately show ?thesis using True il by (simp add: nth_list_update)
  next
    case pne: False
    show ?thesis
    proof (cases "i = h")
      case True
      with i have hne: "h \<noteq> h0" by auto
      have "h0 \<le> h" using bel by (rule below_le)
      then have "f (xs ! (first + c)) \<le> f (xs ! (first + h))"
        using e[of c] c hne by auto
      moreover have "f (xs ! (first + h)) \<le> f (xs ! (first + (h - 1) div 2))"
        using e[of h] i True hne by auto
      ultimately have "f (xs ! (first + c)) \<le> f (xs ! (first + (h - 1) div 2))" by simp
      with True pne il show ?thesis by (simp add: nth_list_update)
    next
      case False
      have "f (xs ! (first + i)) \<le> f (xs ! (first + (i - 1) div 2))"
        using e[of i] i pne by auto
      with False pne il show ?thesis by (simp add: nth_list_update)
    qed
  qed
qed

lemma sift_down_correct:
  fixes f :: "'a \<Rightarrow> 'k::linorder"
  assumes "first + len \<le> length xs" "h < len" "below h0 h"
    and "\<forall>i. 0 < i \<and> i < len \<and> h0 \<le> (i - 1) div 2 \<and> ((i - 1) div 2 = h0 \<longrightarrow> h \<noteq> h0) \<longrightarrow>
              f (xs ! (first + i)) \<le> f (xs ! (first + (i - 1) div 2))"
  shows "\<exists>h' ys. sift_down (\<lambda>a b. f a < f b) first len h xs = (h', ys) \<and>
           length ys = length xs \<and> h' < len \<and> below h0 h' \<and> (len - 1) div 2 \<le> h' \<and>
           (\<forall>i. 0 < i \<and> i < len \<and> h0 \<le> (i - 1) div 2 \<and> ((i - 1) div 2 = h0 \<longrightarrow> h' \<noteq> h0) \<longrightarrow>
              f (ys ! (first + i)) \<le> f (ys ! (first + (i - 1) div 2))) \<and>
           mset (ys[first + h' := v]) = mset (xs[first + h := v]) \<and>
           (\<forall>k < length xs. k < first \<or> first + len \<le> k \<longrightarrow> ys ! k = xs ! k)"
  using assms
proof (induction "len - h" arbitrary: h xs rule: less_induct)
  case less
  let ?lt = "\<lambda>a b. f a < f b"
  show ?case
  proof (cases "h < (len - 1) div 2")
    case False
    then have "sift_down ?lt first len h xs = (h, xs)" by (subst sift_down.simps) simp
    with False less.prems show ?thesis by auto
  next
    case True
    define sc where "sc = 2 * (h + 1)"
    define c where "c = (if f (xs ! (first + sc)) < f (xs ! (first + (sc - 1))) then sc - 1 else sc)"
    let ?xs = "xs[first + h := xs ! (first + c)]"
    have res: "sift_down ?lt first len h xs = sift_down ?lt first len c ?xs"
      using True by (subst sift_down.simps) (simp add: Let_def sc_def c_def)
    from True have scl: "sc < len" by (simp add: sc_def)
    have c: "c < len" "(c - 1) div 2 = h" "h < c"
      using scl by (auto simp: c_def sc_def)
    have larger: "\<forall>s. 0 < s \<and> s < len \<and> (s - 1) div 2 = h \<longrightarrow> f (xs ! (first + s)) \<le> f (xs ! (first + c))"
    proof (intro allI impI)
      fix s assume s: "0 < s \<and> s < len \<and> (s - 1) div 2 = h"
      with child_cases[of s h] have "s = sc - 1 \<or> s = sc" by (auto simp: sc_def)
      then show "f (xs ! (first + s)) \<le> f (xs ! (first + c))" by (auto simp: c_def)
    qed
    from hole_step[OF less.prems(1,3) c less.prems(4) larger]
    have hf: "heap_from f first len h0 ?xs" .
    have q1: "first + len \<le> length ?xs" using less.prems(1) by simp
    have q3: "below h0 c" using below_child[OF less.prems(3) c(2,3)] .
    have q4: "\<forall>i. 0 < i \<and> i < len \<and> h0 \<le> (i - 1) div 2 \<and> ((i - 1) div 2 = h0 \<longrightarrow> c \<noteq> h0) \<longrightarrow>
                f (?xs ! (first + i)) \<le> f (?xs ! (first + (i - 1) div 2))"
      using hf by (simp add: heap_from_def)
    have m: "len - c < len - h" using c by simp
    from less.hyps[OF m q1 c(1) q3 q4] obtain h' ys where
      r: "sift_down ?lt first len c ?xs = (h', ys)" "length ys = length ?xs" "h' < len" "below h0 h'"
         "(len - 1) div 2 \<le> h'"
         "\<forall>i. 0 < i \<and> i < len \<and> h0 \<le> (i - 1) div 2 \<and> ((i - 1) div 2 = h0 \<longrightarrow> h' \<noteq> h0) \<longrightarrow>
              f (ys ! (first + i)) \<le> f (ys ! (first + (i - 1) div 2))"
         "mset (ys[first + h' := v]) = mset (?xs[first + c := v])"
         "\<forall>k < length ?xs. k < first \<or> first + len \<le> k \<longrightarrow> ys ! k = ?xs ! k"
      by blast
    have ms: "mset (?xs[first + c := v]) = mset (xs[first + h := v])"
      by (rule update_hole_mset) (use less.prems(1,2) c in simp_all)
    have fr: "\<forall>k < length xs. k < first \<or> first + len \<le> k \<longrightarrow> ys ! k = xs ! k"
    proof (intro allI impI)
      fix k assume k: "k < length xs" "k < first \<or> first + len \<le> k"
      then have "k \<noteq> first + h" using less.prems(2) by auto
      then have "?xs ! k = xs ! k" by simp
      moreover have "k < length ?xs" using k(1) by simp
      with r(8) k(2) have "ys ! k = ?xs ! k" by blast
      ultimately show "ys ! k = xs ! k" by simp
    qed
    from r(1-6) ms r(7) fr show ?thesis unfolding res by auto
  qed
qed

lemma adjust_heap_correct:
  fixes f :: "'a \<Rightarrow> 'k::linorder"
  assumes len: "first + len \<le> length xs" and h0: "h0 < len"
    and pre: "\<forall>i. 0 < i \<and> i < len \<and> h0 < (i - 1) div 2 \<longrightarrow>
                f (xs ! (first + i)) \<le> f (xs ! (first + (i - 1) div 2))"
  shows "length (adjust_heap (\<lambda>a b. f a < f b) first h0 len v xs) = length xs \<and>
         heap_from f first len h0 (adjust_heap (\<lambda>a b. f a < f b) first h0 len v xs) \<and>
         mset (adjust_heap (\<lambda>a b. f a < f b) first h0 len v xs) = mset (xs[first + h0 := v]) \<and>
         (\<forall>k < length xs. k < first \<or> first + len \<le> k \<longrightarrow>
            adjust_heap (\<lambda>a b. f a < f b) first h0 len v xs ! k = xs ! k)"
proof -
  let ?lt = "\<lambda>a b. f a < f b"
  have e0: "\<forall>i. 0 < i \<and> i < len \<and> h0 \<le> (i - 1) div 2 \<and> ((i - 1) div 2 = h0 \<longrightarrow> h0 \<noteq> h0) \<longrightarrow>
              f (xs ! (first + i)) \<le> f (xs ! (first + (i - 1) div 2))"
    using pre by (auto simp: le_less)
  from sift_down_correct[OF len h0 below_refl e0, of v] obtain h1 a1 where
    r: "sift_down ?lt first len h0 xs = (h1, a1)" "length a1 = length xs" "h1 < len" "below h0 h1"
       "(len - 1) div 2 \<le> h1"
       "\<forall>i. 0 < i \<and> i < len \<and> h0 \<le> (i - 1) div 2 \<and> ((i - 1) div 2 = h0 \<longrightarrow> h1 \<noteq> h0) \<longrightarrow>
            f (a1 ! (first + i)) \<le> f (a1 ! (first + (i - 1) div 2))"
       "mset (a1[first + h1 := v]) = mset (xs[first + h0 := v])"
       "\<forall>k < length xs. k < first \<or> first + len \<le> k \<longrightarrow> a1 ! k = xs ! k"
    by blast
  have len1: "first + len \<le> length a1" using len r(2) by simp
  show ?thesis
  proof (cases "len mod 2 = 0 \<and> 2 \<le> len \<and> h1 = (len - 2) div 2")
    case True
    define c where "c = 2 * (h1 + 1) - 1"
    let ?a2 = "a1[first + h1 := a1 ! (first + c)]"
    have res: "adjust_heap ?lt first h0 len v xs = push_heap ?lt first c h0 v ?a2"
      using True r(1) by (simp add: adjust_heap_def c_def)
    from True have cl: "c = len - 1" unfolding c_def by presburger
    have c: "c < len" "(c - 1) div 2 = h1" "h1 < c"
      using True by (auto simp: c_def)
    have larger: "\<forall>s. 0 < s \<and> s < len \<and> (s - 1) div 2 = h1 \<longrightarrow> f (a1 ! (first + s)) \<le> f (a1 ! (first + c))"
    proof (intro allI impI)
      fix s assume s: "0 < s \<and> s < len \<and> (s - 1) div 2 = h1"
      with child_cases[of s h1] cl have "s = c" by (auto simp: c_def)
      then show "f (a1 ! (first + s)) \<le> f (a1 ! (first + c))" by simp
    qed
    from hole_step[OF len1 r(4) c r(6) larger] have hf: "heap_from f first len h0 ?a2" .
    have q1: "first + len \<le> length ?a2" using len1 by simp
    have q3: "below h0 c" using below_child[OF r(4) c(2,3)] .
    have q5: "\<forall>s. 0 < s \<and> s < len \<and> (s - 1) div 2 = c \<longrightarrow> f (?a2 ! (first + s)) \<le> f v"
      using cl by auto
    note ph = push_heap_correct[OF q1 c(1) q3 hf q5]
    have ms: "mset (?a2[first + c := v]) = mset (a1[first + h1 := v])"
      by (rule update_hole_mset) (use len1 r(3) c in simp_all)
    have fr: "\<forall>k < length xs. k < first \<or> first + len \<le> k \<longrightarrow> push_heap ?lt first c h0 v ?a2 ! k = xs ! k"
    proof (intro allI impI)
      fix k assume k: "k < length xs" "k < first \<or> first + len \<le> k"
      then have "k \<noteq> first + h1" using r(3) by auto
      then have "?a2 ! k = a1 ! k" by simp
      moreover have "k < length ?a2" using k(1) r(2) by simp
      with ph k(2) have "push_heap ?lt first c h0 v ?a2 ! k = ?a2 ! k" by blast
      moreover from r(8) k have "a1 ! k = xs ! k" by blast
      ultimately show "push_heap ?lt first c h0 v ?a2 ! k = xs ! k" by simp
    qed
    from ph ms r(7) r(2) fr show ?thesis unfolding res by simp
  next
    case False
    have res: "adjust_heap ?lt first h0 len v xs = push_heap ?lt first h1 h0 v a1"
      using False r(1) by (auto simp: adjust_heap_def)
    have leaf: "len \<le> 2 * h1 + 1"
      using False r(5) r(3) by presburger
    have hf: "heap_from f first len h0 a1"
      unfolding heap_from_def
    proof (intro allI impI)
      fix i assume i: "0 < i \<and> i < len \<and> h0 \<le> (i - 1) div 2"
      have "(i - 1) div 2 = h0 \<longrightarrow> h1 \<noteq> h0"
      proof
        assume p: "(i - 1) div 2 = h0"
        show "h1 \<noteq> h0"
        proof
          assume "h1 = h0"
          with p i child_cases[of i h1] leaf show False by auto
        qed
      qed
      with r(6) i show "f (a1 ! (first + i)) \<le> f (a1 ! (first + (i - 1) div 2))" by blast
    qed
    have q5: "\<forall>s. 0 < s \<and> s < len \<and> (s - 1) div 2 = h1 \<longrightarrow> f (a1 ! (first + s)) \<le> f v"
    proof (intro allI impI)
      fix s assume s: "0 < s \<and> s < len \<and> (s - 1) div 2 = h1"
      with child_cases[of s h1] leaf have False by auto
      then show "f (a1 ! (first + s)) \<le> f v" ..
    qed
    note ph = push_heap_correct[OF len1 r(3,4) hf q5]
    have fr: "\<forall>k < length xs. k < first \<or> first + len \<le> k \<longrightarrow> push_heap ?lt first h1 h0 v a1 ! k = xs ! k"
    proof (intro allI impI)
      fix k assume k: "k < length xs" "k < first \<or> first + len \<le> k"
      have "k < length a1" using k(1) r(2) by simp
      with ph k(2) have "push_heap ?lt first h1 h0 v a1 ! k = a1 ! k" by blast
      moreover from r(8) k have "a1 ! k = xs ! k" by blast
      ultimately show "push_heap ?lt first h1 h0 v a1 ! k = xs ! k" by simp
    qed
    from ph r(7) r(2) fr show ?thesis unfolding res by simp
  qed
qed

lemma make_heap_loop_correct:
  fixes f :: "'a \<Rightarrow> 'k::linorder"
  assumes "first + len \<le> length xs" "p < len"
    and "\<forall>i. 0 < i \<and> i < len \<and> p < (i - 1) div 2 \<longrightarrow>
            f (xs ! (first + i)) \<le> f (xs ! (first + (i - 1) div 2))"
  shows "length (make_heap_loop (\<lambda>a b. f a < f b) first len p xs) = length xs \<and>
         heap_from f first len 0 (make_heap_loop (\<lambda>a b. f a < f b) first len p xs) \<and>
         mset (make_heap_loop (\<lambda>a b. f a < f b) first len p xs) = mset xs \<and>
         (\<forall>k < length xs. k < first \<or> first + len \<le> k \<longrightarrow>
            make_heap_loop (\<lambda>a b. f a < f b) first len p xs ! k = xs ! k)"
  using assms
proof (induction p arbitrary: xs)
  case 0
  from adjust_heap_correct[OF 0(1,2,3), of "xs ! first"] show ?case by simp
next
  case (Suc p)
  let ?lt = "\<lambda>a b. f a < f b"
  let ?a = "adjust_heap ?lt first (Suc p) len (xs ! (first + Suc p)) xs"
  note a = adjust_heap_correct[OF Suc.prems(1,2,3), of "xs ! (first + Suc p)"]
  have q1: "first + len \<le> length ?a" using a Suc.prems(1) by simp
  have q2: "p < len" using Suc.prems(2) by simp
  have q3: "\<forall>i. 0 < i \<and> i < len \<and> p < (i - 1) div 2 \<longrightarrow>
            f (?a ! (first + i)) \<le> f (?a ! (first + (i - 1) div 2))"
    using a by (simp add: heap_from_def Suc_le_eq)
  note ih = Suc.IH[OF q1 q2 q3]
  have fr: "\<forall>k < length xs. k < first \<or> first + len \<le> k \<longrightarrow> make_heap_loop ?lt first len p ?a ! k = xs ! k"
  proof (intro allI impI)
    fix k assume k: "k < length xs" "k < first \<or> first + len \<le> k"
    have "k < length ?a" using k(1) a by simp
    with ih k(2) have "make_heap_loop ?lt first len p ?a ! k = ?a ! k" by blast
    moreover from a k have "?a ! k = xs ! k" by blast
    ultimately show "make_heap_loop ?lt first len p ?a ! k = xs ! k" by simp
  qed
  from ih a fr show ?case by simp
qed

lemma make_heap_correct:
  fixes f :: "'a \<Rightarrow> 'k::linorder"
  assumes "first \<le> lst" "lst \<le> length xs"
  shows "length (make_heap (\<lambda>a b. f a < f b) first lst xs) = length xs \<and>
         heap_from f first (lst - first) 0 (make_heap (\<lambda>a b. f a < f b) first lst xs) \<and>
         mset (make_heap (\<lambda>a b. f a < f b) first lst xs) = mset xs \<and>
         (\<forall>k < length xs. k < first \<or> lst \<le> k \<longrightarrow> make_heap (\<lambda>a b. f a < f b) first lst xs ! k = xs ! k)"
proof (cases "lst - first < 2")
  case True
  then have "heap_from f first (lst - first) 0 xs"
    by (auto simp: heap_from_def)
  with True show ?thesis by (simp add: make_heap_def)
next
  case False
  define len where "len = lst - first"
  have q1: "first + len \<le> length xs" using assms by (simp add: len_def)
  have q2: "(len - 2) div 2 < len" using False by (simp add: len_def)
  have q3: "\<forall>i. 0 < i \<and> i < len \<and> (len - 2) div 2 < (i - 1) div 2 \<longrightarrow>
            f (xs ! (first + i)) \<le> f (xs ! (first + (i - 1) div 2))"
    by auto
  have fl: "first + len = lst" using assms by (simp add: len_def)
  from make_heap_loop_correct[OF q1 q2 q3] False show ?thesis
    by (simp add: make_heap_def len_def[symmetric] fl)
qed

lemma heap_root_max:
  fixes f :: "'a \<Rightarrow> 'k::linorder"
  assumes "heap_from f first len 0 xs" "i < len"
  shows "f (xs ! (first + i)) \<le> f (xs ! first)"
  using assms(2)
proof (induction i rule: less_induct)
  case (less i)
  show ?case
  proof (cases "i = 0")
    case True
    then show ?thesis by simp
  next
    case False
    then have p: "(i - 1) div 2 < i" by auto
    from assms(1) False less.prems
    have "f (xs ! (first + i)) \<le> f (xs ! (first + (i - 1) div 2))"
      by (simp add: heap_from_def)
    also have "\<dots> \<le> f (xs ! first)" using less.IH[OF p] p less.prems by simp
    finally show ?thesis .
  qed
qed

lemma pop_heap_correct:
  fixes f :: "'a \<Rightarrow> 'k::linorder"
  assumes hp: "heap_from f first (Suc len) 0 xs" and len: "first + Suc len \<le> length xs" and pos: "0 < len"
  shows "length (pop_heap (\<lambda>a b. f a < f b) first (first + len) (first + len) xs) = length xs \<and>
         heap_from f first len 0 (pop_heap (\<lambda>a b. f a < f b) first (first + len) (first + len) xs) \<and>
         pop_heap (\<lambda>a b. f a < f b) first (first + len) (first + len) xs ! (first + len) = xs ! first \<and>
         mset (pop_heap (\<lambda>a b. f a < f b) first (first + len) (first + len) xs) = mset xs \<and>
         (\<forall>k < length xs. k < first \<or> first + Suc len \<le> k \<longrightarrow>
            pop_heap (\<lambda>a b. f a < f b) first (first + len) (first + len) xs ! k = xs ! k)"
proof -
  let ?lt = "\<lambda>a b. f a < f b"
  let ?x1 = "xs[first + len := xs ! first]"
  let ?v = "xs ! (first + len)"
  have res: "pop_heap ?lt first (first + len) (first + len) xs = adjust_heap ?lt first 0 len ?v ?x1"
    by (simp add: pop_heap_def)
  have q1: "first + len \<le> length ?x1" using len by simp
  have q3: "\<forall>i. 0 < i \<and> i < len \<and> 0 < (i - 1) div 2 \<longrightarrow>
            f (?x1 ! (first + i)) \<le> f (?x1 ! (first + (i - 1) div 2))"
  proof (intro allI impI)
    fix i assume i: "0 < i \<and> i < len \<and> 0 < (i - 1) div 2"
    then have "f (xs ! (first + i)) \<le> f (xs ! (first + (i - 1) div 2))"
      using hp by (simp add: heap_from_def)
    moreover have "(i - 1) div 2 < len" using i by auto
    ultimately show "f (?x1 ! (first + i)) \<le> f (?x1 ! (first + (i - 1) div 2))"
      using i by simp
  qed
  note a = adjust_heap_correct[OF q1 pos q3, of ?v]
  have "mset (?x1[first + 0 := ?v]) = mset xs"
    using mset_swap[of first xs "first + len"] len by simp
  with a have ms: "mset (adjust_heap ?lt first 0 len ?v ?x1) = mset xs" by simp
  have "first + len < length ?x1" using len by simp
  with a have "adjust_heap ?lt first 0 len ?v ?x1 ! (first + len) = ?x1 ! (first + len)" by simp
  then have at: "adjust_heap ?lt first 0 len ?v ?x1 ! (first + len) = xs ! first" using len by simp
  have fr: "\<forall>k < length xs. k < first \<or> first + Suc len \<le> k \<longrightarrow> adjust_heap ?lt first 0 len ?v ?x1 ! k = xs ! k"
  proof (intro allI impI)
    fix k assume k: "k < length xs" "k < first \<or> first + Suc len \<le> k"
    then have "k < length ?x1" "k < first \<or> first + len \<le> k" by auto
    with a have "adjust_heap ?lt first 0 len ?v ?x1 ! k = ?x1 ! k" by blast
    moreover have "?x1 ! k = xs ! k" using k by auto
    ultimately show "adjust_heap ?lt first 0 len ?v ?x1 ! k = xs ! k" by simp
  qed
  from a ms at fr show ?thesis unfolding res by simp
qed

subsection \<open>The introsort loop and the whole sort\<close>

lemma sort_heap_correct:
  fixes f :: "'a \<Rightarrow> 'k::linorder"
  assumes "first < lst" "lst \<le> n0" "n0 \<le> length xs" "heap_from f first (lst - first) 0 xs"
    and "\<forall>i j. first \<le> i \<and> i < lst \<and> lst \<le> j \<and> j < n0 \<longrightarrow> f (xs ! i) \<le> f (xs ! j)"
  shows "length (sort_heap (\<lambda>a b. f a < f b) first lst xs) = length xs \<and>
         mset (sort_heap (\<lambda>a b. f a < f b) first lst xs) = mset xs \<and>
         (\<forall>k < length xs. k < first \<or> lst \<le> k \<longrightarrow> sort_heap (\<lambda>a b. f a < f b) first lst xs ! k = xs ! k) \<and>
         (\<forall>j. first < j \<and> j < n0 \<longrightarrow>
            f (sort_heap (\<lambda>a b. f a < f b) first lst xs ! first) \<le> f (sort_heap (\<lambda>a b. f a < f b) first lst xs ! j))"
  using assms
proof (induction lst arbitrary: xs rule: less_induct)
  case (less lst)
  let ?lt = "\<lambda>a b. f a < f b"
  show ?case
  proof (cases "1 < lst - first")
    case False
    with less.prems(1) have l: "lst = Suc first" by simp
    have res: "sort_heap ?lt first lst xs = xs" using False by (subst sort_heap.simps) simp
    from less.prems(5) l have "\<forall>j. first < j \<and> j < n0 \<longrightarrow> f (xs ! first) \<le> f (xs ! j)" by auto
    then show ?thesis unfolding res by simp
  next
    case True
    define len where "len = lst - 1 - first"
    have fl: "first + len = lst - 1" and sl: "Suc len = lst - first" and pos: "0 < len"
      using True by (simp_all add: len_def)
    let ?x1 = "pop_heap ?lt first (lst - 1) (lst - 1) xs"
    have res: "sort_heap ?lt first lst xs = sort_heap ?lt first (lst - 1) ?x1"
      using True by (subst sort_heap.simps) simp
    have hp: "heap_from f first (Suc len) 0 xs" using less.prems(4) sl by simp
    have ln: "first + Suc len \<le> length xs" using less.prems(2,3) sl less.prems(1) by simp
    note p = pop_heap_correct[OF hp ln pos, unfolded fl]
    have fsl: "first + Suc len = lst" using sl less.prems(1) by simp
    have pfr: "\<forall>k < length xs. k < first \<or> lst \<le> k \<longrightarrow> ?x1 ! k = xs ! k"
      using p fsl by simp
    have plen: "length ?x1 = length xs" and pms: "mset ?x1 = mset xs" using p by simp_all
    have q0: "lst - 1 < lst" using less.prems(1) by simp
    have q1: "first < lst - 1" using True by simp
    have q2: "lst - 1 \<le> n0" using less.prems(2) by simp
    have q3: "n0 \<le> length ?x1" using less.prems(3) plen by simp
    have q4: "heap_from f first (lst - 1 - first) 0 ?x1" using p by (simp add: len_def)
    have fl2: "first \<le> lst" "lst \<le> length xs" using less.prems(1,2,3) by simp_all
    have q5: "\<forall>i j. first \<le> i \<and> i < lst - 1 \<and> lst - 1 \<le> j \<and> j < n0 \<longrightarrow> f (?x1 ! i) \<le> f (?x1 ! j)"
    proof (intro allI impI)
      fix i j assume ij: "first \<le> i \<and> i < lst - 1 \<and> lst - 1 \<le> j \<and> j < n0"
      then have "first \<le> i" "i < lst" by auto
      from range_nth[OF plen pms pfr fl2 this] obtain i' where
        i': "first \<le> i'" "i' < lst" "?x1 ! i = xs ! i'" by blast
      show "f (?x1 ! i) \<le> f (?x1 ! j)"
      proof (cases "j = lst - 1")
        case True
        then have "?x1 ! j = xs ! first" using p by simp
        moreover have "f (xs ! (first + (i' - first))) \<le> f (xs ! first)"
          by (rule heap_root_max[OF less.prems(4)]) (use i' in simp)
        ultimately show ?thesis using i' by simp
      next
        case False
        with ij have j: "lst \<le> j" "j < n0" by auto
        then have "?x1 ! j = xs ! j" using pfr less.prems(3) by simp
        moreover have "f (xs ! i') \<le> f (xs ! j)" using less.prems(5) i' j by blast
        ultimately show ?thesis using i' by simp
      qed
    qed
    note ih = less.IH[OF q0 q1 q2 q3 q4 q5]
    have fr: "\<forall>k < length xs. k < first \<or> lst \<le> k \<longrightarrow> sort_heap ?lt first (lst - 1) ?x1 ! k = xs ! k"
    proof (intro allI impI)
      fix k assume k: "k < length xs" "k < first \<or> lst \<le> k"
      then have "k < length ?x1" "k < first \<or> lst - 1 \<le> k" using plen by auto
      with ih have "sort_heap ?lt first (lst - 1) ?x1 ! k = ?x1 ! k" by blast
      moreover from pfr k have "?x1 ! k = xs ! k" by blast
      ultimately show "sort_heap ?lt first (lst - 1) ?x1 ! k = xs ! k" by simp
    qed
    from ih plen pms fr show ?thesis unfolding res by simp
  qed
qed

lemma partial_sort_correct:
  fixes f :: "'a \<Rightarrow> 'k::linorder"
  assumes "first < lst" "lst \<le> length xs"
  shows "length (partial_sort (\<lambda>a b. f a < f b) first lst lst xs) = length xs \<and>
         mset (partial_sort (\<lambda>a b. f a < f b) first lst lst xs) = mset xs \<and>
         (\<forall>k < length xs. k < first \<or> lst \<le> k \<longrightarrow> partial_sort (\<lambda>a b. f a < f b) first lst lst xs ! k = xs ! k) \<and>
         (\<forall>j. first < j \<and> j < lst \<longrightarrow>
            f (partial_sort (\<lambda>a b. f a < f b) first lst lst xs ! first) \<le> f (partial_sort (\<lambda>a b. f a < f b) first lst lst xs ! j))"
proof -
  let ?lt = "\<lambda>a b. f a < f b"
  let ?h = "make_heap ?lt first lst xs"
  have res: "partial_sort ?lt first lst lst xs = sort_heap ?lt first lst ?h"
    by (simp add: partial_sort_def heap_select_def)
  have fl: "first \<le> lst" using assms(1) by simp
  note m = make_heap_correct[OF fl assms(2), of f]
  have q3: "lst \<le> length ?h" using m assms(2) by simp
  have q4: "heap_from f first (lst - first) 0 ?h" using m by simp
  have q5: "\<forall>i j. first \<le> i \<and> i < lst \<and> lst \<le> j \<and> j < lst \<longrightarrow> f (?h ! i) \<le> f (?h ! j)" by auto
  note s = sort_heap_correct[OF assms(1) order_refl q3 q4 q5]
  have fr: "\<forall>k < length xs. k < first \<or> lst \<le> k \<longrightarrow> sort_heap ?lt first lst ?h ! k = xs ! k"
  proof (intro allI impI)
    fix k assume k: "k < length xs" "k < first \<or> lst \<le> k"
    then have "k < length ?h" using m by simp
    with s k(2) have "sort_heap ?lt first lst ?h ! k = ?h ! k" by blast
    moreover from m k have "?h ! k = xs ! k" by blast
    ultimately show "sort_heap ?lt first lst ?h ! k = xs ! k" by simp
  qed
  from s m fr show ?thesis unfolding res by simp
qed

lemma introsort_loop_correct:
  fixes f :: "'a \<Rightarrow> 'k::linorder"
  assumes "lst \<le> length xs"
  shows "\<exists>ys. introsort_loop (\<lambda>a b. f a < f b) first lst d xs = Inr ys \<and>
           length ys = length xs \<and> mset ys = mset xs \<and>
           (\<forall>k < length xs. k < first \<or> lst \<le> k \<longrightarrow> ys ! k = xs ! k) \<and>
           (S_threshold < lst - first \<longrightarrow>
              (\<exists>c. first < c \<and> c \<le> first + S_threshold \<and>
                   (\<forall>i j. first \<le> i \<and> i < c \<and> c \<le> j \<and> j < lst \<longrightarrow> f (ys ! i) \<le> f (ys ! j))))"
  using assms
proof (induction d arbitrary: first lst xs)
  case 0
  let ?lt = "\<lambda>a b. f a < f b"
  show ?case
  proof (cases "S_threshold < lst - first")
    case False
    then show ?thesis by (subst introsort_loop.simps) simp
  next
    case True
    then have fl: "first < lst" by simp
    note p = partial_sort_correct[OF fl 0, of f]
    let ?ys = "partial_sort ?lt first lst lst xs"
    have res: "introsort_loop ?lt first lst 0 xs = Inr ?ys"
      using True by (subst introsort_loop.simps) simp
    have "\<forall>i j. first \<le> i \<and> i < Suc first \<and> Suc first \<le> j \<and> j < lst \<longrightarrow> f (?ys ! i) \<le> f (?ys ! j)"
    proof (intro allI impI)
      fix i j assume ij: "first \<le> i \<and> i < Suc first \<and> Suc first \<le> j \<and> j < lst"
      then have "i = first" by simp
      with p ij show "f (?ys ! i) \<le> f (?ys ! j)" by simp
    qed
    then have "\<exists>c. first < c \<and> c \<le> first + S_threshold \<and>
                 (\<forall>i j. first \<le> i \<and> i < c \<and> c \<le> j \<and> j < lst \<longrightarrow> f (?ys ! i) \<le> f (?ys ! j))"
      by (intro exI[of _ "Suc first"]) (simp add: S_threshold_def)
    with p show ?thesis unfolding res by simp
  qed
next
  case (Suc d)
  let ?lt = "\<lambda>a b. f a < f b"
  show ?case
  proof (cases "S_threshold < lst - first")
    case False
    then show ?thesis by (subst introsort_loop.simps) simp
  next
    case True
    from unguarded_partition_pivot_correct[OF True Suc.prems, of f] obtain c0 x1 where
      p: "unguarded_partition_pivot ?lt first lst xs = Inr (c0, x1)" "first < c0" "c0 < lst"
         "length x1 = length xs" "mset x1 = mset xs"
         "\<forall>k < length xs. k < first \<or> lst \<le> k \<longrightarrow> x1 ! k = xs ! k"
         "\<forall>i j. first \<le> i \<and> i < c0 \<and> c0 \<le> j \<and> j < lst \<longrightarrow> f (x1 ! i) \<le> f (x1 ! j)"
      by blast
    have l1: "lst \<le> length x1" using Suc.prems p(4) by simp
    from Suc.IH[OF l1, of c0] obtain x2 where
      a: "introsort_loop ?lt c0 lst d x1 = Inr x2" "length x2 = length x1" "mset x2 = mset x1"
         "\<forall>k < length x1. k < c0 \<or> lst \<le> k \<longrightarrow> x2 ! k = x1 ! k"
      by blast
    have l2: "c0 \<le> length x2" using l1 a(2) p(3) by simp
    from Suc.IH[OF l2, of first] obtain ys where
      b: "introsort_loop ?lt first c0 d x2 = Inr ys" "length ys = length x2" "mset ys = mset x2"
         "\<forall>k < length x2. k < first \<or> c0 \<le> k \<longrightarrow> ys ! k = x2 ! k"
         "S_threshold < c0 - first \<longrightarrow>
              (\<exists>c. first < c \<and> c \<le> first + S_threshold \<and>
                   (\<forall>i j. first \<le> i \<and> i < c \<and> c \<le> j \<and> j < c0 \<longrightarrow> f (ys ! i) \<le> f (ys ! j)))"
      by blast
    have res: "introsort_loop ?lt first lst (Suc d) xs = Inr ys"
      using True p(1) a(1) b(1) by (subst introsort_loop.simps) simp
    have lens: "length ys = length xs" using b(2) a(2) p(4) by simp
    have ms: "mset ys = mset xs" using b(3) a(3) p(5) by simp
    have fr: "\<forall>k < length xs. k < first \<or> lst \<le> k \<longrightarrow> ys ! k = xs ! k"
    proof (intro allI impI)
      fix k assume k: "k < length xs" "k < first \<or> lst \<le> k"
      then have k2: "k < length x2" "k < first \<or> c0 \<le> k" using a(2) p(3,4) by auto
      with b(4) have "ys ! k = x2 ! k" by blast
      moreover from k have "k < length x1" "k < c0 \<or> lst \<le> k" using p(2,4) by auto
      with a(4) have "x2 ! k = x1 ! k" by blast
      moreover from p(6) k have "x1 ! k = xs ! k" by blast
      ultimately show "ys ! k = xs ! k" by simp
    qed
    have cross: "\<forall>i j. first \<le> i \<and> i < c0 \<and> c0 \<le> j \<and> j < lst \<longrightarrow> f (ys ! i) \<le> f (ys ! j)"
    proof (intro allI impI)
      fix i j assume ij: "first \<le> i \<and> i < c0 \<and> c0 \<le> j \<and> j < lst"
      have fc: "first \<le> c0" "c0 \<le> length x2" using p(2) l2 by simp_all
      from ij have "first \<le> i" "i < c0" by simp_all
      from range_nth[OF b(2,3,4) fc this] obtain i' where
        i': "first \<le> i'" "i' < c0" "ys ! i = x2 ! i'" by blast
      have "i' < length x1" using i'(2) l2 a(2) by simp
      with a(4) i'(2) have xi: "x2 ! i' = x1 ! i'" by blast
      have "j < length x2" using ij l1 a(2) by simp
      with b(4) ij have yj: "ys ! j = x2 ! j" by blast
      have cl: "c0 \<le> lst" "lst \<le> length x1" using p(3) l1 by simp_all
      from ij have "c0 \<le> j" "j < lst" by simp_all
      from range_nth[OF a(2,3,4) cl this] obtain j' where
        j': "c0 \<le> j'" "j' < lst" "x2 ! j = x1 ! j'" by blast
      from p(7) i' j' have "f (x1 ! i') \<le> f (x1 ! j')" by blast
      with i'(3) xi yj j'(3) show "f (ys ! i) \<le> f (ys ! j)" by simp
    qed
    have blk: "\<exists>c. first < c \<and> c \<le> first + S_threshold \<and>
                 (\<forall>i j. first \<le> i \<and> i < c \<and> c \<le> j \<and> j < lst \<longrightarrow> f (ys ! i) \<le> f (ys ! j))"
    proof (cases "S_threshold < c0 - first")
      case False
      with p(2) cross show ?thesis by (intro exI[of _ c0]) simp
    next
      case True
      with b(5) obtain c where
        c: "first < c" "c \<le> first + S_threshold"
           "\<forall>i j. first \<le> i \<and> i < c \<and> c \<le> j \<and> j < c0 \<longrightarrow> f (ys ! i) \<le> f (ys ! j)" by blast
      have cc: "c \<le> c0" using c(2) True by simp
      have "\<forall>i j. first \<le> i \<and> i < c \<and> c \<le> j \<and> j < lst \<longrightarrow> f (ys ! i) \<le> f (ys ! j)"
      proof (intro allI impI)
        fix i j assume ij: "first \<le> i \<and> i < c \<and> c \<le> j \<and> j < lst"
        show "f (ys ! i) \<le> f (ys ! j)"
        proof (cases "j < c0")
          case True
          with c(3) ij show ?thesis by blast
        next
          case False
          with cross ij cc show ?thesis by (meson le_less_trans not_less order.strict_trans2)
        qed
      qed
      with c(1,2) show ?thesis by blast
    qed
    from res lens ms fr blk show ?thesis by blast
  qed
qed

lemma libstdcxx_sort_correct:
  fixes f :: "'a \<Rightarrow> 'k::linorder"
  shows "\<exists>ys. libstdcxx_sort (\<lambda>a b. f a < f b) xs = Inr ys \<and> sorted (map f ys) \<and> mset ys = mset xs \<and>
           (length xs \<le> S_threshold \<longrightarrow> (\<forall>k. filter (\<lambda>y. f y = k) ys = filter (\<lambda>y. f y = k) xs))"
proof (cases "xs = []")
  case True
  then show ?thesis by (simp add: libstdcxx_sort_def)
next
  case False
  let ?lt = "\<lambda>a b. f a < f b"
  from introsort_loop_correct[OF order_refl, where f = f and xs = xs and first = 0 and d = "lg (length xs) * 2"] obtain ys where
    y: "introsort_loop ?lt 0 (length xs) (lg (length xs) * 2) xs = Inr ys" "length ys = length xs"
       "mset ys = mset xs"
       "S_threshold < length xs - 0 \<longrightarrow>
              (\<exists>c. 0 < c \<and> c \<le> 0 + S_threshold \<and>
                   (\<forall>i j. 0 \<le> i \<and> i < c \<and> c \<le> j \<and> j < length xs \<longrightarrow> f (ys ! i) \<le> f (ys ! j)))"
    by blast
  have small: "length xs \<le> S_threshold \<Longrightarrow> ys = xs"
    using y(1) by (subst (asm) introsort_loop.simps) simp
  have pre: "S_threshold < length ys \<longrightarrow>
       (\<exists>i < S_threshold. \<forall>j. S_threshold \<le> j \<and> j < length ys \<longrightarrow> f (ys ! i) \<le> f (ys ! j))"
  proof
    assume "S_threshold < length ys"
    with y(2,4) obtain c where c: "0 < c" "c \<le> S_threshold"
      "\<forall>i j. 0 \<le> i \<and> i < c \<and> c \<le> j \<and> j < length xs \<longrightarrow> f (ys ! i) \<le> f (ys ! j)" by auto
    have "\<forall>j. S_threshold \<le> j \<and> j < length ys \<longrightarrow> f (ys ! 0) \<le> f (ys ! j)"
      using c y(2) by auto
    then show "\<exists>i < S_threshold. \<forall>j. S_threshold \<le> j \<and> j < length ys \<longrightarrow> f (ys ! i) \<le> f (ys ! j)"
      by (intro exI[of _ 0]) (simp add: S_threshold_def)
  qed
  from final_insertion_sort_isort[OF pre] y(2)
  have fin: "final_insertion_sort ?lt 0 (length xs) ys = Inr (isort ?lt ys)" by simp
  have res: "libstdcxx_sort ?lt xs = Inr (isort ?lt ys)"
    using False y(1) fin by (simp add: libstdcxx_sort_def)
  have st: "length xs \<le> S_threshold \<longrightarrow> (\<forall>k. filter (\<lambda>y. f y = k) (isort ?lt ys) = filter (\<lambda>y. f y = k) xs)"
    using small isort_stable[of f _ xs] by auto
  from res isort_sorted[of f ys] isort_mset[of ?lt ys] y(3) st show ?thesis by simp
qed

lemma compare_tsc_key: "compare_tsc = (\<lambda>a b. tsc a < tsc b)"
  by (intro ext) (simp add: compare_tsc_def)

lemma lib_gcc_sort:
  "\<exists>ys. libstdcxx_sort compare_tsc xs = Inr ys \<and> std_sort lib_gcc compare_tsc xs = ys \<and>
        sorted (map tsc ys) \<and> mset ys = mset xs \<and>
        (length xs \<le> 16 \<longrightarrow> (\<forall>k. filter (\<lambda>y. tsc y = k) ys = filter (\<lambda>y. tsc y = k) xs))"
proof -
  from libstdcxx_sort_correct[of tsc xs] obtain ys where
    y: "libstdcxx_sort compare_tsc xs = Inr ys" "sorted (map tsc ys)" "mset ys = mset xs"
       "length xs \<le> S_threshold \<longrightarrow> (\<forall>k. filter (\<lambda>y. tsc y = k) ys = filter (\<lambda>y. tsc y = k) xs)"
    unfolding compare_tsc_key by blast
  have "std_sort lib_gcc compare_tsc xs = ys"
    by (simp add: lib_gcc_def std_sort_libstdcxx_def y(1))
  with y show ?thesis by (simp add: S_threshold_def)
qed

lemma lib_gcc_ok: "stdlib_ok lib_gcc"
proof -
  have "std_sort_ok lib_gcc"
    unfolding std_sort_ok_def
  proof (intro allI conjI)
    fix xs
    show "mset (std_sort lib_gcc compare_tsc xs) = mset xs"
      using lib_gcc_sort[of xs] by auto
    show "sorted_wrt (\<lambda>a b. \<not> compare_tsc b a) (std_sort lib_gcc compare_tsc xs)"
      using lib_gcc_sort[of xs] by (auto simp: sorted_map compare_tsc_def not_less)
  qed
  moreover have "pq_top_ok lib_gcc" unfolding lib_gcc_def by (rule first_top_pq_ok)
  ultimately show ?thesis by (simp add: stdlib_ok_def)
qed

section \<open>The merge loop is a merge\<close>

text \<open>The operations a cursor still ranges over, and what makes a cursor well-formed.\<close>

definition rest_of :: "'cb tsc_logger list \<Rightarrow> 'z pos_scheme \<Rightarrow> 'cb op list" where
  "rest_of pend p =
     take (snd (end_it p) - snd (next_it p)) (drop (snd (next_it p)) (ops (pend ! fst (next_it p))))"

definition cursor_ok :: "'cb tsc_logger list \<Rightarrow> 'z pos_scheme \<Rightarrow> bool" where
  "cursor_ok pend p \<longleftrightarrow>
     fst (end_it p) = fst (next_it p) \<and> fst (next_it p) < length pend \<and>
     snd (next_it p) \<le> snd (end_it p) \<and> snd (end_it p) \<le> length (ops (pend ! fst (next_it p))) \<and>
     sorted (map tsc (ops (pend ! fst (next_it p))))"

definition advance :: "'z pos_scheme \<Rightarrow> 'z pos_scheme" where
  "advance p = p\<lparr>next_it := incr (next_it p)\<rparr>"

lemma cursor_step:
  assumes "cursor_ok pend p" "next_it p \<noteq> end_it p"
  shows "in_range pend (next_it p)"
    and "cursor_ok pend (advance p)"
    and "rest_of pend p = deref pend (next_it p) # rest_of pend (advance p)"
proof -
  from assms have lt: "snd (next_it p) < snd (end_it p)"
    by (auto simp: cursor_ok_def prod_eq_iff)
  with assms(1) show "in_range pend (next_it p)"
    by (simp add: cursor_ok_def in_range_def)
  from lt assms(1) show "cursor_ok pend (advance p)"
    by (simp add: cursor_ok_def advance_def incr_def)
  from lt assms(1) have n: "snd (next_it p) < length (ops (pend ! fst (next_it p)))"
    by (simp add: cursor_ok_def)
  from lt obtain k where k: "snd (end_it p) - snd (next_it p) = Suc k"
    by (cases "snd (end_it p) - snd (next_it p)") auto
  then have k': "snd (end_it p) - Suc (snd (next_it p)) = k" by simp
  show "rest_of pend p = deref pend (next_it p) # rest_of pend (advance p)"
    unfolding rest_of_def advance_def incr_def deref_def
    by (simp add: k k' Cons_nth_drop_Suc[OF n, symmetric])
qed

lemma rest_of_sorted: "cursor_ok pend p \<Longrightarrow> sorted (map tsc (rest_of pend p))"
  unfolding rest_of_def cursor_ok_def
  by (simp add: take_map[symmetric] drop_map[symmetric] sorted_wrt_take sorted_wrt_drop)

lemma rest_of_done: "next_it p = end_it p \<Longrightarrow> rest_of pend p = []"
  by (simp add: rest_of_def)

definition merge_inv ::
  "'cb tsc_logger list \<Rightarrow> nat list \<Rightarrow> 'z pos_scheme list \<Rightarrow> 'cb op list \<Rightarrow> bool" where
  "merge_inv pend heap posns merged \<longleftrightarrow>
     distinct heap \<and>
     (\<forall>a. a \<in> set heap \<longleftrightarrow> a < length posns \<and> next_it (posns ! a) \<noteq> end_it (posns ! a)) \<and>
     (\<forall>p \<in> set posns. cursor_ok pend p) \<and>
     sorted (map tsc merged) \<and>
     (\<forall>x \<in> set merged. \<forall>p \<in> set posns. \<forall>y \<in> set (rest_of pend p). tsc x \<le> tsc y) \<and>
     (\<forall>p \<in> set posns. subseq (take (snd (next_it p)) (ops (pend ! fst (next_it p)))) merged)"

definition all_rest :: "'cb tsc_logger list \<Rightarrow> 'z pos_scheme list \<Rightarrow> 'cb op multiset" where
  "all_rest pend posns = sum_list (map (\<lambda>p. mset (rest_of pend p)) posns)"

lemma sum_list_map_update:
  "i < length xs \<Longrightarrow>
     sum_list (map f (xs[i := y])) + f (xs ! i) = sum_list (map f xs) + (f y :: 'b :: comm_monoid_add)"
proof (induction xs arbitrary: i)
  case Nil
  then show ?case by simp
next
  case (Cons x xs)
  then show ?case by (cases i) (auto simp: ac_simps)
qed

lemma compare_heads_order:
  "irreflp (compare_heads pend posns)" "transp (compare_heads pend posns)"
  by (auto simp: compare_heads_def irreflp_def transp_def)

lemma merge_step:
  fixes posns :: "'z pos_scheme list"
  assumes ok: "pq_top_ok L" and inv: "merge_inv pend heap posns merged" and ne: "heap \<noteq> []"
  defines "tp \<equiv> pq_top L (compare_heads pend posns) heap"
  defines "posns' \<equiv> posns[tp := advance (posns ! tp)]"
  defines "merged' \<equiv> merged @ [deref pend (next_it (posns ! tp))]"
  defines "heap' \<equiv> (if next_it (posns' ! tp) \<noteq> end_it (posns' ! tp)
                      then remove1 tp heap @ [tp] else remove1 tp heap)"
  shows "tp < length posns" and "in_range pend (next_it (posns ! tp))"
    and "merge_inv pend heap' posns' merged'"
    and "mset merged' + all_rest pend posns' = mset merged + all_rest pend posns"
proof -
  from inv have dist: "distinct heap"
    and mem: "\<And>a. a \<in> set heap \<longleftrightarrow> a < length posns \<and> next_it (posns ! a) \<noteq> end_it (posns ! a)"
    and cur: "\<And>p. p \<in> set posns \<Longrightarrow> cursor_ok pend p"
    and srt: "sorted (map tsc merged)"
    and low: "\<And>x p y. x \<in> set merged \<Longrightarrow> p \<in> set posns \<Longrightarrow> y \<in> set (rest_of pend p) \<Longrightarrow> tsc x \<le> tsc y"
    and sub: "\<And>p. p \<in> set posns \<Longrightarrow> subseq (take (snd (next_it p)) (ops (pend ! fst (next_it p)))) merged"
    unfolding merge_inv_def by blast+
  from ok ne compare_heads_order[of pend posns]
  have top_in: "tp \<in> set heap" and top_max: "\<And>x. x \<in> set heap \<Longrightarrow> \<not> compare_heads pend posns tp x"
    unfolding pq_top_ok_def tp_def by blast+
  from top_in mem show top_lt: "tp < length posns" by blast
  from top_in mem have top_ne: "next_it (posns ! tp) \<noteq> end_it (posns ! tp)" by blast
  have top_cur: "cursor_ok pend (posns ! tp)" using cur top_lt by simp
  note st = cursor_step[OF top_cur top_ne]
  show "in_range pend (next_it (posns ! tp))" by (rule st(1))
  define h where "h = deref pend (next_it (posns ! tp))"
  have rest_top: "rest_of pend (posns ! tp) = h # rest_of pend (advance (posns ! tp))"
    using st(3) by (simp add: h_def)
  have nth': "\<And>a. a < length posns \<Longrightarrow> posns' ! a = (if a = tp then advance (posns ! tp) else posns ! a)"
    by (simp add: posns'_def nth_list_update)
  have len': "length posns' = length posns" by (simp add: posns'_def)
  have set': "\<And>p. p \<in> set posns' \<Longrightarrow> p = advance (posns ! tp) \<or> p \<in> set posns"
    unfolding posns'_def using set_update_subset_insert[of posns tp] by blast
  \<comment> \<open>the head taken is the least of everything still to be merged\<close>
  have h_least: "tsc h \<le> tsc y" if p: "p \<in> set posns" and y: "y \<in> set (rest_of pend p)" for p y
  proof -
    from p obtain a where a: "a < length posns" "p = posns ! a" by (auto simp: in_set_conv_nth)
    from y have "rest_of pend p \<noteq> []" by auto
    then have ne_a: "next_it p \<noteq> end_it p" using rest_of_done by blast
    with a mem have "a \<in> set heap" by simp
    from top_max[OF this] have le: "tsc h \<le> tsc (deref pend (next_it p))"
      by (simp add: compare_heads_def h_def a not_less)
    from cursor_step(3)[OF cur[OF p] ne_a]
    have r: "rest_of pend p = deref pend (next_it p) # rest_of pend (advance p)" .
    from rest_of_sorted[OF cur[OF p]] have "sorted (map tsc (rest_of pend p))" .
    with r y have "tsc (deref pend (next_it p)) \<le> tsc y" by auto
    with le show ?thesis by simp
  qed
  have h_in: "h \<in> set (rest_of pend (posns ! tp))" by (simp add: rest_top)
  have top_set: "posns ! tp \<in> set posns" using top_lt by simp
  have c1: "distinct heap'" using dist by (auto simp: heap'_def)
  have c2: "a \<in> set heap' \<longleftrightarrow> a < length posns' \<and> next_it (posns' ! a) \<noteq> end_it (posns' ! a)" for a
  proof (cases "a = tp")
    case True
    then show ?thesis using top_lt dist by (auto simp: heap'_def len')
  next
    case False
    then have "a \<in> set heap' \<longleftrightarrow> a \<in> set heap" using dist by (auto simp: heap'_def)
    also have "\<dots> \<longleftrightarrow> a < length posns \<and> next_it (posns ! a) \<noteq> end_it (posns ! a)" by (rule mem)
    also have "\<dots> \<longleftrightarrow> a < length posns' \<and> next_it (posns' ! a) \<noteq> end_it (posns' ! a)"
      using False nth'[of a] by (auto simp: len')
    finally show ?thesis .
  qed
  have c3: "cursor_ok pend p" if "p \<in> set posns'" for p
    using set'[OF that] st(2) cur by blast
  have c4: "sorted (map tsc merged')"
    using srt low[OF _ top_set h_in] by (auto simp: merged'_def h_def sorted_append)
  have rest_sub: "set (rest_of pend p) \<subseteq> (\<Union>q \<in> set posns. set (rest_of pend q))" if "p \<in> set posns'" for p
  proof -
    from set'[OF that] show ?thesis
    proof
      assume "p = advance (posns ! tp)"
      then have "set (rest_of pend p) \<subseteq> set (rest_of pend (posns ! tp))" by (auto simp: rest_top)
      with top_set show ?thesis by blast
    next
      assume "p \<in> set posns"
      then show ?thesis by blast
    qed
  qed
  have c5: "tsc x \<le> tsc y" if x: "x \<in> set merged'" and p: "p \<in> set posns'" and y: "y \<in> set (rest_of pend p)" for x p y
  proof -
    from rest_sub[OF p] y obtain q where q: "q \<in> set posns" "y \<in> set (rest_of pend q)" by blast
    from x have "x \<in> set merged \<or> x = h" by (auto simp: merged'_def h_def)
    then show ?thesis
    proof
      assume "x \<in> set merged"
      from low[OF this q] show ?thesis .
    next
      assume "x = h"
      with h_least[OF q] show ?thesis by simp
    qed
  qed
  have c6: "subseq (take (snd (next_it p)) (ops (pend ! fst (next_it p)))) merged'" if "p \<in> set posns'" for p
  proof -
    from set'[OF that] show ?thesis
    proof
      assume pa: "p = advance (posns ! tp)"
      from st(1) have n: "snd (next_it (posns ! tp)) < length (ops (pend ! fst (next_it (posns ! tp))))"
        by (simp add: in_range_def)
      have "take (snd (next_it p)) (ops (pend ! fst (next_it p)))
            = take (snd (next_it (posns ! tp))) (ops (pend ! fst (next_it (posns ! tp)))) @ [h]"
        by (simp add: pa advance_def incr_def take_Suc_conv_app_nth[OF n] h_def deref_def)
      moreover have "subseq (take (snd (next_it (posns ! tp))) (ops (pend ! fst (next_it (posns ! tp)))) @ [h]) (merged @ [h])"
        by (rule list_emb_append_mono[OF sub[OF top_set]]) simp
      ultimately show ?thesis by (simp add: merged'_def h_def)
    next
      assume "p \<in> set posns"
      from list_emb_append_mono[OF sub[OF this], of "[]" "[h]"]
      show ?thesis by (simp add: merged'_def h_def)
    qed
  qed
  show "merge_inv pend heap' posns' merged'"
    unfolding merge_inv_def using c1 c2 c3 c4 c5 c6 by blast
  have "all_rest pend posns' + mset (rest_of pend (posns ! tp))
        = all_rest pend posns + mset (rest_of pend (advance (posns ! tp)))"
    unfolding all_rest_def posns'_def by (rule sum_list_map_update[OF top_lt])
  then show "mset merged' + all_rest pend posns' = mset merged + all_rest pend posns"
    by (simp add: rest_top merged'_def h_def)
qed

definition same_but_next :: "'z pos_scheme list \<Rightarrow> 'z pos_scheme list \<Rightarrow> bool" where
  "same_but_next posns posns' \<longleftrightarrow>
     length posns' = length posns \<and>
     (\<forall>a < length posns. posns' ! a = (posns ! a)\<lparr>next_it := next_it (posns' ! a)\<rparr>)"

lemma same_but_next_refl: "same_but_next posns posns"
  by (simp add: same_but_next_def)

lemma same_but_next_step:
  assumes "same_but_next (posns[t := advance (posns ! t)]) posns'"
  shows "same_but_next posns posns'"
  unfolding same_but_next_def
proof (intro conjI allI impI)
  from assms show l: "length posns' = length posns" by (simp add: same_but_next_def)
  fix a assume a: "a < length posns"
  with assms have e: "posns' ! a = (posns[t := advance (posns ! t)] ! a)\<lparr>next_it := next_it (posns' ! a)\<rparr>"
    by (simp add: same_but_next_def)
  show "posns' ! a = (posns ! a)\<lparr>next_it := next_it (posns' ! a)\<rparr>"
  proof (cases "a = t")
    case True
    with e a show ?thesis by (simp add: advance_def)
  next
    case False
    with e a show ?thesis by simp
  qed
qed

lemma merge_ops_correct:
  fixes posns :: "'z pos_scheme list"
  assumes "pq_top_ok L" and "merge_inv pend heap posns merged"
  shows "\<exists>posns' merged'.
           merge_ops L pend heap posns merged = Inr (posns', merged') \<and>
           merge_inv pend [] posns' merged' \<and>
           mset merged' + all_rest pend posns' = mset merged + all_rest pend posns \<and>
           same_but_next posns posns'"
  using assms
proof (induction L pend heap posns merged rule: merge_ops.induct)
  case (1 L pend heap posns merged)
  show ?case
  proof (cases "heap = []")
    case True
    with "1.prems"(2) show ?thesis
      by (simp add: merge_ops.simps same_but_next_refl)
  next
    case False
    define t where "t = pq_top L (compare_heads pend posns) heap"
    define posns1 where "posns1 = posns[t := advance (posns ! t)]"
    define merged1 where "merged1 = merged @ [deref pend (next_it (posns ! t))]"
    define heap1 where "heap1 = (if next_it (posns1 ! t) \<noteq> end_it (posns1 ! t)
                      then remove1 t heap @ [t] else remove1 t heap)"
    note st = merge_step[OF "1.prems"(1) "1.prems"(2) False, folded t_def, folded posns1_def merged1_def, folded heap1_def]
    have rng: "\<not> (\<not> t < length posns \<or> \<not> in_range pend (next_it (posns ! t)))"
      using st(1,2) by simp
    have unf: "merge_ops L pend heap posns merged = merge_ops L pend heap1 posns1 merged1"
      using False rng
      by (subst merge_ops.simps)
         (simp add: Let_def t_def[symmetric] advance_def[symmetric] posns1_def[symmetric]
            merged1_def[symmetric] heap1_def[symmetric])
    have "\<exists>posns' merged'.
           merge_ops L pend heap1 posns1 merged1 = Inr (posns', merged') \<and>
           merge_inv pend [] posns' merged' \<and>
           mset merged' + all_rest pend posns' = mset merged1 + all_rest pend posns1 \<and>
           same_but_next posns1 posns'"
      unfolding heap1_def
      by (rule "1.IH"[OF False t_def rng merged1_def _ refl "1.prems"(1)])
         (simp_all add: posns1_def advance_def st(3)[unfolded heap1_def posns1_def advance_def])
    then obtain posns' merged' where
      r: "merge_ops L pend heap1 posns1 merged1 = Inr (posns', merged')"
      and i: "merge_inv pend [] posns' merged'"
      and m: "mset merged' + all_rest pend posns' = mset merged1 + all_rest pend posns1"
      and sb: "same_but_next posns1 posns'" by blast
    from sb have "same_but_next posns posns'"
      unfolding posns1_def by (rule same_but_next_step)
    with r i m st(4) unf show ?thesis by simp
  qed
qed

section \<open>What flush\_finish runs\<close>

lemma sort_ops_mset: "std_sort_ok L \<Longrightarrow> mset (ops (sort_ops L l)) = mset (ops l)"
  by (simp add: std_sort_ok_def sort_ops_def)

lemma sort_ops_sorted: "std_sort_ok L \<Longrightarrow> sorted (map tsc (ops (sort_ops L l)))"
  by (simp add: std_sort_ok_def sort_ops_def sorted_map compare_tsc_def not_less)

lemma sort_ops_empty: "std_sort_ok L \<Longrightarrow> ops (sort_ops L l) = [] \<longleftrightarrow> ops l = []"
  using sort_ops_mset[of L l] by (metis mset_zero_iff)

definition sorted_or_empty :: "'cb stdlib \<Rightarrow> 'cb tsc_logger \<Rightarrow> 'cb tsc_logger" where
  "sorted_or_empty L l = (if ops l = [] then l else sort_ops L l)"

lemma collect_posns_pend:
  "collect_posns L i ls = (ls', posns) \<Longrightarrow> ls' = map (sorted_or_empty L) ls"
  by (induction ls arbitrary: i ls' posns)
     (auto simp: sorted_or_empty_def Let_def split: prod.splits if_splits)

definition fresh_cursor :: "'cb tsc_logger list \<Rightarrow> 'z pos_scheme \<Rightarrow> bool" where
  "fresh_cursor pend p \<longleftrightarrow>
     cursor_ok pend p \<and> next_it p \<noteq> end_it p \<and> snd (next_it p) = 0"

lemma collect_posns_cursors:
  fixes L :: "'cb stdlib"
  assumes "std_sort_ok L" "collect_posns L (length pre) ls = (ls', posns)"
  shows "(\<forall>p \<in> set posns. fresh_cursor (pre @ ls') p \<and> length pre \<le> fst (next_it p) \<and>
            snd (end_it p) = length (ops ((pre @ ls') ! fst (next_it p)))) \<and>
         (\<forall>j < length ls'. ops (ls' ! j) \<noteq> [] \<longrightarrow> (\<exists>p \<in> set posns. fst (next_it p) = length pre + j))"
  using assms(2)
proof (induction ls arbitrary: pre ls' posns)
  case Nil
  then show ?case by simp
next
  case (Cons l ls)
  obtain rest' ps where rec: "collect_posns L (Suc (length pre)) ls = (rest', ps)"
    by (cases "collect_posns L (Suc (length pre)) ls") auto
  define l' where "l' = sorted_or_empty L l"
  from Cons.prems rec have ls': "ls' = l' # rest'"
    and posns: "posns = (if ops l = [] then ps
                  else \<lparr>next_it = (length pre, 0), end_it = (length pre, length (ops l'))\<rparr> # ps)"
    by (auto simp: l'_def sorted_or_empty_def Let_def split: if_splits)
  note IH = Cons.IH[of "pre @ [l']" rest' ps, simplified, OF rec]
  have old: "fresh_cursor (pre @ ls') p \<and> length pre \<le> fst (next_it p) \<and>
            snd (end_it p) = length (ops ((pre @ ls') ! fst (next_it p)))" if "p \<in> set ps" for p
    using IH that by (auto simp: ls')
  have new: "fresh_cursor (pre @ ls') p \<and> length pre \<le> fst (next_it p) \<and>
            snd (end_it p) = length (ops ((pre @ ls') ! fst (next_it p)))"
    if "ops l \<noteq> []" and p: "p = \<lparr>next_it = (length pre, 0), end_it = (length pre, length (ops l'))\<rparr>" for p
  proof -
    from that assms(1) have "ops l' \<noteq> []" "sorted (map tsc (ops l'))"
      by (simp_all add: l'_def sorted_or_empty_def sort_ops_empty sort_ops_sorted)
    then show ?thesis
      by (simp add: p fresh_cursor_def cursor_ok_def ls' nth_append)
  qed
  have part1: "\<forall>p \<in> set posns. fresh_cursor (pre @ ls') p \<and> length pre \<le> fst (next_it p) \<and>
            snd (end_it p) = length (ops ((pre @ ls') ! fst (next_it p)))"
    using old new by (auto simp: posns)
  have part2: "\<exists>p \<in> set posns. fst (next_it p) = length pre + j"
    if j: "j < length ls'" and ne: "ops (ls' ! j) \<noteq> []" for j
  proof (cases j)
    case 0
    with ne have "ops l' \<noteq> []" by (simp add: ls')
    then have "ops l \<noteq> []" using assms(1) by (auto simp: l'_def sorted_or_empty_def)
    then show ?thesis by (simp add: posns 0)
  next
    case (Suc k)
    with j ne have "k < length rest'" "ops (rest' ! k) \<noteq> []" by (simp_all add: ls')
    with IH obtain p where "p \<in> set ps" "fst (next_it p) = Suc (length pre + k)" by auto
    then show ?thesis by (auto simp: posns Suc)
  qed
  from part1 part2 show ?case by blast
qed

lemma collect_posns_rest:
  fixes L :: "'cb stdlib"
  assumes "std_sort_ok L" "collect_posns L (length pre) ls = (ls', posns)"
  shows "all_rest (pre @ ls') posns = mset (concat (map ops ls))"
  using assms(2)
proof (induction ls arbitrary: pre ls' posns)
  case Nil
  then show ?case by (simp add: all_rest_def)
next
  case (Cons l ls)
  obtain rest' ps where rec: "collect_posns L (Suc (length pre)) ls = (rest', ps)"
    by (cases "collect_posns L (Suc (length pre)) ls") auto
  define l' where "l' = sorted_or_empty L l"
  from Cons.prems rec have ls': "ls' = l' # rest'"
    and posns: "posns = (if ops l = [] then ps
                  else \<lparr>next_it = (length pre, 0), end_it = (length pre, length (ops l'))\<rparr> # ps)"
    by (auto simp: l'_def sorted_or_empty_def Let_def split: if_splits)
  from Cons.IH[of "pre @ [l']" rest' ps, simplified, OF rec]
  have IH: "all_rest (pre @ l' # rest') ps = mset (concat (map ops ls))" .
  have "mset (ops l') = mset (ops l)"
    using assms(1) by (simp add: l'_def sorted_or_empty_def sort_ops_mset)
  then show ?case
    using IH by (auto simp: posns ls' all_rest_def rest_of_def nth_append)
qed

lemma initial_inv:
  assumes "\<forall>p \<in> set posns. fresh_cursor pend p"
  shows "merge_inv pend (seq_vector (length posns)) posns []"
  using assms unfolding merge_inv_def seq_vector_def fresh_cursor_def
  by auto

lemma merge_from_fresh:
  fixes posns :: "'z pos_scheme list"
  assumes ok: "pq_top_ok L" and fresh: "\<forall>p \<in> set posns. fresh_cursor pend p"
  shows "\<exists>merged.
           merge_ops L pend (seq_vector (length posns)) posns []
             = Inr (map (\<lambda>p. p\<lparr>next_it := end_it p\<rparr>) posns, merged) \<and>
           sorted (map tsc merged) \<and> mset merged = all_rest pend posns \<and>
           (\<forall>p \<in> set posns. subseq (take (snd (end_it p)) (ops (pend ! fst (next_it p)))) merged)"
proof -
  from merge_ops_correct[OF ok initial_inv[OF fresh]] obtain posns' merged where
    r: "merge_ops L pend (seq_vector (length posns)) posns [] = Inr (posns', merged)"
    and i: "merge_inv pend [] posns' merged"
    and m: "mset merged + all_rest pend posns' = all_rest pend posns"
    and sb: "same_but_next posns posns'" by auto
  from i have fin: "\<And>a. a < length posns' \<Longrightarrow> next_it (posns' ! a) = end_it (posns' ! a)"
    and srt: "sorted (map tsc merged)"
    and sub: "\<And>p. p \<in> set posns' \<Longrightarrow> subseq (take (snd (next_it p)) (ops (pend ! fst (next_it p)))) merged"
    unfolding merge_inv_def by auto
  from sb have len: "length posns' = length posns"
    and same: "\<And>a. a < length posns \<Longrightarrow> posns' ! a = (posns ! a)\<lparr>next_it := next_it (posns' ! a)\<rparr>"
    unfolding same_but_next_def by auto
  have nth: "posns' ! a = (posns ! a)\<lparr>next_it := end_it (posns ! a)\<rparr>" if a: "a < length posns" for a
  proof -
    have "end_it (posns' ! a) = end_it (posns ! a)"
      by (subst same[OF a]) simp
    with fin[of a] a len same[OF a] show ?thesis by simp
  qed
  have eq: "posns' = map (\<lambda>p. p\<lparr>next_it := end_it p\<rparr>) posns"
    by (rule nth_equalityI) (simp_all add: len nth)
  have "rest_of pend p = []" if "p \<in> set posns'" for p
    using that fin by (auto simp: in_set_conv_nth rest_of_done)
  then have "all_rest pend posns' = {#}"
    unfolding all_rest_def by (induction posns') auto
  with m have m': "mset merged = all_rest pend posns" by simp
  have "subseq (take (snd (end_it p)) (ops (pend ! fst (next_it p)))) merged" if p: "p \<in> set posns" for p
  proof -
    from p have "p\<lparr>next_it := end_it p\<rparr> \<in> set posns'" by (simp add: eq)
    from sub[OF this] fresh p show ?thesis
      by (simp add: fresh_cursor_def cursor_ok_def)
  qed
  with r eq srt m' show ?thesis by blast
qed

lemma is_sorted_iff: "is_sorted compare_tsc xs \<longleftrightarrow> sorted (map tsc xs)"
  by (induction xs rule: induct_list012) (auto simp: compare_tsc_def not_less intro: order_trans)

section \<open>tsc\_logger: sort\_ops and ops\_before\_max\_tsc\<close>

lemma scan_before_le: "scan_before xs m \<le> length xs"
  by (induction xs) auto

lemma scan_before_below: "i < scan_before xs m \<Longrightarrow> tsc (xs ! i) < m"
proof (induction xs arbitrary: i)
  case Nil
  then show ?case by simp
next
  case (Cons x xs)
  then show ?case by (cases i) (auto split: if_splits)
qed

lemma scan_before_stop: "scan_before xs m < length xs \<Longrightarrow> m \<le> tsc (xs ! scan_before xs m)"
  by (induction xs) auto

lemma scan_before_sorted:
  "sorted (map tsc xs) \<Longrightarrow> scan_before xs m \<le> i \<Longrightarrow> i < length xs \<Longrightarrow> m \<le> tsc (xs ! i)"
proof (induction xs arbitrary: i)
  case Nil
  then show ?case by simp
next
  case (Cons x xs)
  show ?case
  proof (cases "m \<le> tsc x")
    case True
    show ?thesis
    proof (cases i)
      case 0
      with True show ?thesis by simp
    next
      case (Suc k)
      with Cons.prems have "tsc x \<le> tsc (xs ! k)" by auto
      with True Suc show ?thesis by simp
    qed
  next
    case False
    with Cons.prems obtain k where k: "i = Suc k" by (cases i) auto
    with False Cons.prems Cons.IH[of k] show ?thesis by simp
  qed
qed

text \<open>
  Claim C6, amended: \<^verbatim>\<open>sort_ops()\<close> sorts by timestamp with \<^verbatim>\<open>std::sort\<close>. For every
  logger the sort returns, the timestamps are non-decreasing afterwards and the
  operations are the ones that were there before, each as often; and in a logger of at
  most 16 operations, the operations with equal timestamps keep their relative order.
  (In a longer one they need not.)
\<close>

theorem sort_ops_sorts:
  "libstdcxx_sort compare_tsc (ops l) = Inr (ops (sort_ops lib_gcc l)) \<and>
   sorted (map tsc (ops (sort_ops lib_gcc l))) \<and> mset (ops (sort_ops lib_gcc l)) = mset (ops l) \<and>
   (length (ops l) \<le> 16 \<longrightarrow>
      (\<forall>k. filter (\<lambda>x. tsc x = k) (ops (sort_ops lib_gcc l)) = filter (\<lambda>x. tsc x = k) (ops l)))"
  using lib_gcc_sort[of "ops l"] by (auto simp: sort_ops_def)

text \<open>The theorem at a logger of three operations, two of them with the timestamp 7.\<close>

theorem sort_ops_sorts_witness:
  "length (ops \<lparr>ops = [Op 7 (0::nat), Op 3 1, Op 7 2]\<rparr>) \<le> 16 \<and>
   ops (sort_ops lib_gcc \<lparr>ops = [Op 7 (0::nat), Op 3 1, Op 7 2]\<rparr>) = [Op 3 1, Op 7 0, Op 7 2] \<and>
   sorted (map tsc (ops (sort_ops lib_gcc \<lparr>ops = [Op 7 (0::nat), Op 3 1, Op 7 2]\<rparr>))) \<and>
   filter (\<lambda>x. tsc x = 7) (ops (sort_ops lib_gcc \<lparr>ops = [Op 7 (0::nat), Op 3 1, Op 7 2]\<rparr>))
     = [Op 7 0, Op 7 2]"
proof -
  have "ops (sort_ops lib_gcc \<lparr>ops = [Op 7 (0::nat), Op 3 1, Op 7 2]\<rparr>) = [Op 3 1, Op 7 0, Op 7 2]"
    by code_simp
  then show ?thesis
    using sort_ops_sorts[of "\<lparr>ops = [Op 7 (0::nat), Op 3 1, Op 7 2]\<rparr>"] by simp
qed

text \<open>
  Claim C6 as stated (a stable sort) fails for a logger of 17 operations with the same
  timestamp: the partition step exchanges the first element with the middle one and
  then the elements from both ends pairwise, and the insertion sort that follows moves
  no element past an equal one.
\<close>

theorem sort_ops_stable_counterexample:
  "ops (sort_ops lib_gcc
     \<lparr>ops = [Op 4 (0::nat), Op 4 1, Op 4 2, Op 4 3, Op 4 4, Op 4 5, Op 4 6, Op 4 7, Op 4 8,
             Op 4 9, Op 4 10, Op 4 11, Op 4 12, Op 4 13, Op 4 14, Op 4 15, Op 4 16]\<rparr>)
   = [Op 4 8, Op 4 16, Op 4 15, Op 4 14, Op 4 13, Op 4 12, Op 4 11, Op 4 10, Op 4 9,
      Op 4 0, Op 4 7, Op 4 6, Op 4 5, Op 4 4, Op 4 3, Op 4 2, Op 4 1]"
  by code_simp

text \<open>
  Claim C7, amended: for every logger and every \<open>max_tsc\<close>, every operation before the
  returned position has a timestamp below \<open>max_tsc\<close>, and the operation at the position,
  if there is one, has not. When the operations are in timestamp order (as they are where
  the function is called, right after \<^verbatim>\<open>sort_ops\<close>), every operation at or after the
  position has a timestamp of at least \<open>max_tsc\<close>.
\<close>

theorem ops_before_max_tsc_partition:
  "ops_before_max_tsc l m \<le> length (ops l) \<and>
   (\<forall>i < ops_before_max_tsc l m. tsc (ops l ! i) < m) \<and>
   (ops_before_max_tsc l m < length (ops l) \<longrightarrow> m \<le> tsc (ops l ! ops_before_max_tsc l m)) \<and>
   (sorted (map tsc (ops l)) \<longrightarrow>
      (\<forall>i. ops_before_max_tsc l m \<le> i \<and> i < length (ops l) \<longrightarrow> m \<le> tsc (ops l ! i)))"
  unfolding ops_before_max_tsc_def
  using scan_before_le[of "ops l" m] scan_before_below[of _ "ops l" m]
    scan_before_stop[of "ops l" m] scan_before_sorted[of "ops l" m]
  by blast

text \<open>The theorem at a sorted logger and \<open>max_tsc = 5\<close>.\<close>

theorem ops_before_max_tsc_partition_witness:
  "ops_before_max_tsc \<lparr>ops = [Op 2 (0::nat), Op 5 1, Op 7 2]\<rparr> 5 = 1 \<and>
   tsc ([Op 2 (0::nat), Op 5 1, Op 7 2] ! 0) < 5 \<and>
   5 \<le> tsc ([Op 2 (0::nat), Op 5 1, Op 7 2] ! 1) \<and>
   5 \<le> tsc ([Op 2 (0::nat), Op 5 1, Op 7 2] ! 2)"
  using ops_before_max_tsc_partition[of "\<lparr>ops = [Op 2 (0::nat), Op 5 1, Op 7 2]\<rparr>" 5]
  by (simp add: ops_before_max_tsc_def)

text \<open>
  Claim C7 as stated (any logger state) fails on a logger that is not in timestamp order:
  the position returned is 0, and the operation at index 1 has a timestamp below
  \<open>max_tsc = 3\<close>.
\<close>

theorem ops_before_max_tsc_counterexample:
  "ops_before_max_tsc \<lparr>ops = [Op 5 (0::nat), Op 2 1]\<rparr> 3 = 0 \<and>
   tsc (ops \<lparr>ops = [Op 5 (0::nat), Op 2 1]\<rparr> ! 1) < 3"
  by (simp add: ops_before_max_tsc_def)

section \<open>flush\_finish\<close>

lemma collect_posns_none:
  "(\<forall>l \<in> set ls. ops l = []) \<Longrightarrow> collect_posns L i ls = (ls, [])"
  by (induction ls arbitrary: i) auto

lemma collect_posns_Nil:
  "collect_posns L i ls = (ls', []) \<Longrightarrow> (\<forall>l \<in> set ls. ops l = []) \<and> ls' = ls"
  by (induction ls arbitrary: i ls') (auto simp: Let_def split: prod.splits if_splits)

lemma flush_finish_empty_loggers:
  "\<forall>l \<in> set (pending s). ops l = [] \<Longrightarrow> flush_finish L s = Inr s"
  by (simp add: flush_finish_def collect_posns_none)

lemma flush_finish_result:
  fixes s :: "('cb, 'z) tsc_logged_object_scheme"
  assumes ok: "stdlib_ok L"
  shows "\<exists>merged.
           flush_finish L s
             = Inr (s\<lparr>ran := ran s @ merged,
                      pending := (if \<forall>l \<in> set (pending s). ops l = [] then pending s else [])\<rparr>) \<and>
           sorted (map tsc merged) \<and>
           mset merged = mset (concat (map ops (pending s))) \<and>
           (\<forall>l \<in> set (pending s). subseq (std_sort L compare_tsc (ops l)) merged)"
proof (cases "\<forall>l \<in> set (pending s). ops l = []")
  case True
  from ok have so: "std_sort_ok L" by (simp add: stdlib_ok_def)
  have "std_sort L compare_tsc (ops l) = []" if "l \<in> set (pending s)" for l
    using sort_ops_empty[OF so, of l] True that by (simp add: sort_ops_def)
  moreover have "concat (map ops (pending s)) = []" using True by simp
  ultimately show ?thesis
    using True flush_finish_empty_loggers[OF True, of L]
    by (intro exI[of _ "[]"]) simp
next
  case False
  from ok have so: "std_sort_ok L" and po: "pq_top_ok L" by (simp_all add: stdlib_ok_def)
  obtain pend posns where c: "collect_posns L 0 (pending s) = (pend, posns)"
    by (cases "collect_posns L 0 (pending s)") auto
  have c': "collect_posns L (length ([] :: 'cb tsc_logger list)) (pending s) = (pend, posns)"
    using c by simp
  from False have ne: "pending s \<noteq> []" by auto
  have pne: "posns \<noteq> []"
    using collect_posns_Nil[of L 0 "pending s" pend] c False by auto
  note cur = collect_posns_cursors[OF so c', simplified]
  from cur have fresh: "\<forall>p \<in> set posns. fresh_cursor pend p" by blast
  from merge_from_fresh[OF po fresh] obtain merged where
    r: "merge_ops L pend (seq_vector (length posns)) posns []
          = Inr (map (\<lambda>p. p\<lparr>next_it := end_it p\<rparr>) posns, merged)"
    and srt: "sorted (map tsc merged)"
    and m: "mset merged = all_rest pend posns"
    and sub: "\<And>p. p \<in> set posns \<Longrightarrow> subseq (take (snd (end_it p)) (ops (pend ! fst (next_it p)))) merged"
    by blast
  from collect_posns_rest[OF so c'] m have m': "mset merged = mset (concat (map ops (pending s)))"
    by simp
  have pend: "pend = map (sorted_or_empty L) (pending s)"
    by (rule collect_posns_pend[OF c])
  have sub': "subseq (std_sort L compare_tsc (ops l)) merged" if l: "l \<in> set (pending s)" for l
  proof (cases "ops l = []")
    case True
    with sort_ops_empty[OF so, of l] show ?thesis by (simp add: sort_ops_def)
  next
    case False
    from l obtain j where j: "j < length (pending s)" "l = pending s ! j"
      by (auto simp: in_set_conv_nth)
    then have pj: "pend ! j = sort_ops L l" using False by (simp add: pend sorted_or_empty_def)
    then have "ops (pend ! j) \<noteq> []" using False sort_ops_empty[OF so, of l] by simp
    with cur j obtain p where p: "p \<in> set posns" "fst (next_it p) = j"
      by (auto simp: pend)
    with cur have "snd (end_it p) = length (ops (pend ! j))" by auto
    with sub[OF p(1)] p(2) pj show ?thesis by (simp add: sort_ops_def)
  qed
  have "flush_finish L s = Inr (s\<lparr>ran := ran s @ merged, pending := []\<rparr>)"
    using ne c pne r srt by (simp add: flush_finish_def is_sorted_iff)
  with False srt m' sub' show ?thesis by auto
qed

section \<open>What a gather does\<close>

lemma set_cpus_empty_iff: "set_cpus b = [] \<longleftrightarrow> (\<forall>i < length b. \<not> b ! i)"
  by (auto simp: set_cpus_def filter_empty_conv)

lemma gather_cpu_ready:
  assumes "obj (cache s cpu (hash_way this)) = this" "\<not> lock (cache s cpu (hash_way this))"
  shows "gather_cpu this cpu s
           = Some (Inr (s\<lparr>pending := pending s @ [logger (cache s cpu (hash_way this))],
                           cache := (cache s)(cpu := (cache s cpu)
                              (hash_way this := (cache s cpu (hash_way this))\<lparr>logger := reset (logger (cache s cpu (hash_way this)))\<rparr>)),
                           cpus := (cpus s)[cpu := False]\<rparr>))"
  using assms by (simp add: gather_cpu_def Let_def flush_logger_def spin_acquire_free)

lemma gather_cpu_Inr_ready:
  assumes "gather_cpu this cpu s = Some (Inr s')"
  shows "obj (cache s cpu (hash_way this)) = this" "\<not> lock (cache s cpu (hash_way this))"
proof -
  from assms obtain y where a: "spin_acquire (lock (cache s cpu (hash_way this))) = Some y"
    by (cases "spin_acquire (lock (cache s cpu (hash_way this)))") (simp_all add: gather_cpu_def Let_def)
  from spin_acquire_Some[OF a] show "\<not> lock (cache s cpu (hash_way this))" by simp
  from assms a show "obj (cache s cpu (hash_way this)) = this"
    by (cases "obj (cache s cpu (hash_way this)) = this") (simp_all add: gather_cpu_def Let_def)
qed

lemma gather_cpu_frame:
  assumes "gather_cpu this cpu s = Some (Inr s')"
  shows "cpus s' = (cpus s)[cpu := False]" "sync_lock s' = sync_lock s" "ran s' = ran s"
    "pending s' = pending s @ [logger (cache s cpu (hash_way this))]"
    "\<And>c. c \<noteq> cpu \<Longrightarrow> cache s' c = cache s c"
proof -
  note e = assms[unfolded gather_cpu_ready[OF gather_cpu_Inr_ready[OF assms]]]
  from e have s': "s' = s\<lparr>pending := pending s @ [logger (cache s cpu (hash_way this))],
                           cache := (cache s)(cpu := (cache s cpu)
                              (hash_way this := (cache s cpu (hash_way this))\<lparr>logger := reset (logger (cache s cpu (hash_way this)))\<rparr>)),
                           cpus := (cpus s)[cpu := False]\<rparr>" by simp
  show "cpus s' = (cpus s)[cpu := False]" "sync_lock s' = sync_lock s" "ran s' = ran s"
    "pending s' = pending s @ [logger (cache s cpu (hash_way this))]"
    by (simp_all add: s')
  show "\<And>c. c \<noteq> cpu \<Longrightarrow> cache s' c = cache s c" by (simp add: s')
qed

lemma gather_from_idle:
  assumes "\<And>c. c \<in> set cs \<Longrightarrow> \<not> cpus s ! c"
  shows "gather_from this cs s any = Some (Inr (s, any))"
  using assms
proof (induction cs)
  case Nil
  show ?case by simp
next
  case (Cons c cs)
  have "\<not> cpus s ! c" by (rule Cons.prems) simp
  moreover have "gather_from this cs s any = Some (Inr (s, any))"
    by (rule Cons.IH) (rule Cons.prems, simp)
  ultimately show ?case by simp
qed

lemma gather_from_frame:
  assumes "gather_from this cs s any = Some (Inr (s', any'))" "distinct cs"
  shows "sync_lock s' = sync_lock s \<and> ran s' = ran s \<and>
         pending s' = pending s @ map (\<lambda>c. logger (cache s c (hash_way this))) (filter (\<lambda>c. cpus s ! c) cs)"
  using assms
proof (induction cs arbitrary: s any)
  case Nil
  then show ?case by simp
next
  case (Cons c cs)
  show ?case
  proof (cases "cpus s ! c")
    case False
    with Cons.prems have "gather_from this cs s any = Some (Inr (s', any'))" by simp
    from Cons.IH[OF this] Cons.prems(2) False show ?thesis by simp
  next
    case True
    with Cons.prems obtain s1 where g: "gather_cpu this c s = Some (Inr s1)"
      and r: "gather_from this cs s1 True = Some (Inr (s', any'))"
      by (auto split: option.splits sum.splits)
    note f = gather_cpu_frame[OF g]
    from Cons.prems(2) have nc: "c \<notin> set cs" and d: "distinct cs" by simp_all
    have fe: "filter (\<lambda>c. cpus s1 ! c) cs = filter (\<lambda>c. cpus s ! c) cs"
    proof (rule filter_cong[OF refl])
      fix x assume "x \<in> set cs"
      with nc have "c \<noteq> x" by auto
      then show "cpus s1 ! x = cpus s ! x" by (simp add: f(1))
    qed
    have me: "map (\<lambda>c. logger (cache s1 c (hash_way this))) (filter (\<lambda>c. cpus s ! c) cs)
              = map (\<lambda>c. logger (cache s c (hash_way this))) (filter (\<lambda>c. cpus s ! c) cs)"
    proof (rule map_cong[OF refl])
      fix x assume "x \<in> set (filter (\<lambda>c. cpus s ! c) cs)"
      with nc have "x \<noteq> c" by auto
      then have "cache s1 x = cache s x" by (rule f(5))
      then show "logger (cache s1 x (hash_way this)) = logger (cache s x (hash_way this))" by simp
    qed
    from Cons.IH[OF r d] have
      "sync_lock s' = sync_lock s1" "ran s' = ran s1"
      "pending s' = pending s1 @ map (\<lambda>c. logger (cache s1 c (hash_way this))) (filter (\<lambda>c. cpus s1 ! c) cs)"
      by simp_all
    then show ?thesis
      unfolding fe me by (simp add: f(2,3,4) True)
  qed
qed

lemma gather_from_total:
  assumes "distinct cs"
    "\<forall>c \<in> set cs. cpus s ! c \<longrightarrow> obj (cache s c (hash_way this)) = this \<and> \<not> lock (cache s c (hash_way this))"
  shows "\<exists>s' any'. gather_from this cs s any = Some (Inr (s', any'))"
  using assms
proof (induction cs arbitrary: s any)
  case Nil
  then show ?case by simp
next
  case (Cons c cs)
  show ?case
  proof (cases "cpus s ! c")
    case False
    with Cons.IH[of s any] Cons.prems show ?thesis by simp
  next
    case True
    with Cons.prems have rdy: "obj (cache s c (hash_way this)) = this" "\<not> lock (cache s c (hash_way this))"
      by simp_all
    define s1 where "s1 = s\<lparr>pending := pending s @ [logger (cache s c (hash_way this))],
                           cache := (cache s)(c := (cache s c)
                              (hash_way this := (cache s c (hash_way this))\<lparr>logger := reset (logger (cache s c (hash_way this)))\<rparr>)),
                           cpus := (cpus s)[c := False]\<rparr>"
    have g: "gather_cpu this c s = Some (Inr s1)"
      unfolding s1_def by (rule gather_cpu_ready[OF rdy])
    from Cons.prems(1) have nc: "c \<notin> set cs" and d: "distinct cs" by simp_all
    have "\<forall>x \<in> set cs. cpus s1 ! x \<longrightarrow> obj (cache s1 x (hash_way this)) = this \<and> \<not> lock (cache s1 x (hash_way this))"
    proof
      fix x assume x: "x \<in> set cs"
      with nc have "c \<noteq> x" by auto
      then have "cpus s1 ! x = cpus s ! x" "cache s1 x = cache s x" by (simp_all add: s1_def)
      with Cons.prems(2) x
      show "cpus s1 ! x \<longrightarrow> obj (cache s1 x (hash_way this)) = this \<and> \<not> lock (cache s1 x (hash_way this))"
        by simp
    qed
    from Cons.IH[OF d this, of True] g True show ?thesis by simp
  qed
qed

text \<open>
  What \<^verbatim>\<open>synchronize\<close> needs of the cache to get through its gather: the way of every CPU
  in \<^verbatim>\<open>cpus_\<close> is tagged with the object (the assertion) and its lock is free.
\<close>

definition gather_ready :: "u64 \<Rightarrow> ('cb, 'z) tsc_logged_object_scheme \<Rightarrow> bool" where
  "gather_ready this s \<longleftrightarrow>
     (\<forall>c < length (cpus s). cpus s ! c \<longrightarrow>
        obj (cache s c (hash_way this)) = this \<and> \<not> lock (cache s c (hash_way this)))"

lemma gather_pass_idle:
  assumes "set_cpus (cpus s) = []"
  shows "gather_pass this s = Some (Inr (s, False))"
  unfolding gather_pass_def
proof (rule gather_from_idle)
  fix c assume c: "c \<in> set [0..<length (cpus s)]"
  from assms have "\<forall>i < length (cpus s). \<not> cpus s ! i" by (rule iffD1[OF set_cpus_empty_iff])
  moreover from c have "c < length (cpus s)" by simp
  ultimately show "\<not> cpus s ! c" by blast
qed

lemma gather_loop_result:
  assumes "gather_loop this s = Some (Inr g)"
  shows "set_cpus (cpus g) = []" "length (cpus g) = length (cpus s)"
    "sync_lock g = sync_lock s" "ran g = ran s"
    "pending g = pending s @ map (\<lambda>c. logger (cache s c (hash_way this))) (set_cpus (cpus s))"
proof -
  from assms obtain s' any where p: "gather_pass this s = Some (Inr (s', any))"
    and rest: "(if \<not> any then Some (Inr s') else gather_loop this s') = Some (Inr g)"
    by (subst (asm) gather_loop.simps) (auto split: option.splits sum.splits)
  note c = gather_pass_cpus[OF p]
  have "gather_loop this s' = Some (Inr s')"
    by (subst gather_loop.simps) (simp add: gather_pass_idle[OF c(2)])
  with rest have g: "g = s'" by (auto split: if_splits)
  from gather_from_frame[OF p[unfolded gather_pass_def]]
  have f: "sync_lock s' = sync_lock s" "ran s' = ran s"
    "pending s' = pending s @ map (\<lambda>c. logger (cache s c (hash_way this))) (set_cpus (cpus s))"
    by (simp_all add: set_cpus_def)
  show "set_cpus (cpus g) = []" "length (cpus g) = length (cpus s)"
    "sync_lock g = sync_lock s" "ran g = ran s"
    "pending g = pending s @ map (\<lambda>c. logger (cache s c (hash_way this))) (set_cpus (cpus s))"
    using c f by (simp_all add: g)
qed

lemma gather_loop_total:
  assumes "gather_ready this s"
  shows "\<exists>g. gather_loop this s = Some (Inr g)"
proof -
  have "\<exists>s' any'. gather_from this [0..<length (cpus s)] s False = Some (Inr (s', any'))"
    using assms by (intro gather_from_total) (auto simp: gather_ready_def)
  then obtain s' any where p: "gather_pass this s = Some (Inr (s', any))"
    by (auto simp: gather_pass_def)
  note c = gather_pass_cpus[OF p]
  have "gather_loop this s' = Some (Inr s')"
    by (subst gather_loop.simps) (simp add: gather_pass_idle[OF c(2)])
  then have "gather_loop this s = Some (Inr s')"
    using p by (subst gather_loop.simps) simp
  then show ?thesis by blast
qed

lemma gather_loop_idle:
  assumes "set_cpus (cpus s) = []"
  shows "gather_loop this s = Some (Inr s)"
  by (subst gather_loop.simps) (simp only: gather_pass_idle[OF assms] option.case sum.case prod.case not_False_eq_True if_True)

section \<open>synchronize\<close>

lemma flush_finish_cases:
  assumes "flush_finish L s = Inr s'"
  shows "(s' = s \<and> (\<forall>l \<in> set (pending s). ops l = [])) \<or>
         (\<exists>merged. s' = s\<lparr>ran := ran s @ merged, pending := []\<rparr>)"
proof (cases "pending s = []")
  case True
  with assms show ?thesis by (simp add: flush_finish_def)
next
  case ne: False
  obtain pend posns where c: "collect_posns L 0 (pending s) = (pend, posns)"
    by (cases "collect_posns L 0 (pending s)") auto
  show ?thesis
  proof (cases "posns = []")
    case True
    with c have e: "\<forall>l \<in> set (pending s). ops l = []" "pend = pending s"
      using collect_posns_Nil[of L 0 "pending s" pend] by simp_all
    from assms ne c True e(2) have "s' = s" by (simp add: flush_finish_def)
    with e(1) show ?thesis by simp
  next
    case pne: False
    show ?thesis
    proof (cases "merge_ops L pend (seq_vector (length posns)) posns []")
      case (Inl e)
      with assms ne c pne show ?thesis by (simp add: flush_finish_def)
    next
      case (Inr r)
      obtain posns' merged where r: "r = (posns', merged)" by (cases r)
      show ?thesis
      proof (cases "is_sorted compare_tsc merged")
        case False
        with assms ne c pne Inr r show ?thesis by (simp add: flush_finish_def)
      next
        case True
        with assms ne c pne Inr r have "s' = s\<lparr>ran := ran s @ merged, pending := []\<rparr>"
          by (simp add: flush_finish_def)
        then show ?thesis by blast
      qed
    qed
  qed
qed

lemma flush_finish_frame:
  assumes "flush_finish L s = Inr s'"
  shows "cpus s' = cpus s" "sync_lock s' = sync_lock s" "cache s' = cache s"
    "\<forall>l \<in> set (pending s'). ops l = []"
  using flush_finish_cases[OF assms] by auto

lemma synchronize_Inr:
  assumes "synchronize L this s = Some (Inr s')"
  obtains g where "\<not> sync_lock s" "gather_loop this (s\<lparr>sync_lock := True\<rparr>) = Some (Inr g)"
    "flush_finish L g = Inr s'"
proof -
  from assms obtain held where a: "spin_acquire (sync_lock s) = Some held"
    by (cases "spin_acquire (sync_lock s)") (simp_all add: synchronize_def)
  from spin_acquire_Some[OF a] have h: "\<not> sync_lock s" "held" by simp_all
  from assms a h(2) obtain r where g: "gather_loop this (s\<lparr>sync_lock := True\<rparr>) = Some r"
    by (cases "gather_loop this (s\<lparr>sync_lock := True\<rparr>)") (simp_all add: synchronize_def)
  from assms a h(2) g obtain g' where r: "r = Inr g'"
    by (cases r) (simp_all add: synchronize_def)
  from assms a h(2) g r have "flush_finish L g' = Inr s'" by (simp add: synchronize_def)
  with that h(1) g r show ?thesis by blast
qed

lemma synchronize_twice_lemma:
  assumes "synchronize L this s = Some (Inr s1)"
  shows "synchronize L this (s1\<lparr>sync_lock := False\<rparr>) = Some (Inr s1)"
proof -
  from assms obtain g where g: "gather_loop this (s\<lparr>sync_lock := True\<rparr>) = Some (Inr g)"
    and f: "flush_finish L g = Inr s1" by (rule synchronize_Inr)
  note gr = gather_loop_result[OF g]
  note ff = flush_finish_frame[OF f]
  have lock: "sync_lock s1" using gr(3) ff(2) by simp
  have idle: "set_cpus (cpus s1) = []" using gr(1) ff(1) by simp
  have relock: "s1\<lparr>sync_lock := True\<rparr> = s1" using lock by simp
  have "gather_loop this s1 = Some (Inr s1)" by (rule gather_loop_idle[OF idle])
  moreover have "flush_finish L s1 = Inr s1" by (rule flush_finish_empty_loggers[OF ff(4)])
  ultimately show ?thesis
    by (simp add: synchronize_def spin_acquire_free relock)
qed

lemma gather_ready_relock: "gather_ready this (s\<lparr>sync_lock := b\<rparr>) = gather_ready this s"
  by (simp add: gather_ready_def)

lemma synchronize_order_lemma:
  fixes s :: "('cb, 'z) tsc_logged_object_scheme"
  assumes ok: "stdlib_ok L" and free: "\<not> sync_lock s" and rdy: "gather_ready this s"
  shows "\<exists>s' merged.
           synchronize L this s = Some (Inr s') \<and> ran s' = ran s @ merged \<and>
           sorted (map tsc merged) \<and>
           mset merged = mset (concat (map ops (pending s @ gathered this s))) \<and>
           (\<forall>l \<in> set (pending s @ gathered this s). subseq (std_sort L compare_tsc (ops l)) merged)"
proof -
  from rdy have "gather_ready this (s\<lparr>sync_lock := True\<rparr>)" by (simp add: gather_ready_relock)
  from gather_loop_total[OF this] obtain g where g: "gather_loop this (s\<lparr>sync_lock := True\<rparr>) = Some (Inr g)"
    by blast
  note gr = gather_loop_result[OF g]
  have pg: "pending g = pending s @ gathered this s" using gr(5) by (simp add: gathered_def)
  from flush_finish_result[OF ok, of g] obtain merged where
    f: "flush_finish L g = Inr (g\<lparr>ran := ran g @ merged,
                      pending := (if \<forall>l \<in> set (pending g). ops l = [] then pending g else [])\<rparr>)"
    and srt: "sorted (map tsc merged)"
    and m: "mset merged = mset (concat (map ops (pending g)))"
    and sub: "\<forall>l \<in> set (pending g). subseq (std_sort L compare_tsc (ops l)) merged"
    by blast
  have "synchronize L this s = Some (Inr (g\<lparr>ran := ran g @ merged,
                      pending := (if \<forall>l \<in> set (pending g). ops l = [] then pending g else [])\<rparr>))"
    using free g f by (simp add: synchronize_def spin_acquire_free)
  moreover have "ran g = ran s" using gr(4) by simp
  ultimately show ?thesis using srt m sub unfolding pg by auto
qed

lemma obj0_ready: "gather_ready this0 obj0"
  by (simp add: gather_ready_def obj0_def cache0_def less_Suc_eq numeral_2_eq_2)

lemma obj_ties_ready: "gather_ready this0 obj_ties"
  by (simp add: gather_ready_def obj_ties_def cache_ties_def)

lemma gather_from_Inr_ready:
  assumes "gather_from this cs s any = Some (Inr (s', any'))" "distinct cs"
  shows "\<forall>c \<in> set cs. cpus s ! c \<longrightarrow>
           obj (cache s c (hash_way this)) = this \<and> \<not> lock (cache s c (hash_way this))"
  using assms
proof (induction cs arbitrary: s any)
  case Nil
  then show ?case by simp
next
  case (Cons c cs)
  from Cons.prems(2) have nc: "c \<notin> set cs" and d: "distinct cs" by simp_all
  show ?case
  proof (cases "cpus s ! c")
    case False
    with Cons.prems have "gather_from this cs s any = Some (Inr (s', any'))" by simp
    from Cons.IH[OF this d] False show ?thesis by simp
  next
    case True
    with Cons.prems obtain s1 where g: "gather_cpu this c s = Some (Inr s1)"
      and r: "gather_from this cs s1 True = Some (Inr (s', any'))"
      by (auto split: option.splits sum.splits)
    note f = gather_cpu_frame[OF g]
    note here = gather_cpu_Inr_ready[OF g]
    have "cpus s ! x \<longrightarrow> obj (cache s x (hash_way this)) = this \<and> \<not> lock (cache s x (hash_way this))"
      if x: "x \<in> set cs" for x
    proof -
      from x nc have ne: "x \<noteq> c" by auto
      then have e1: "cpus s1 ! x = cpus s ! x" by (simp add: f(1))
      have e2: "cache s1 x = cache s x" using ne by (rule f(5))
      from Cons.IH[OF r d] x
      have "cpus s1 ! x \<longrightarrow> obj (cache s1 x (hash_way this)) = this \<and> \<not> lock (cache s1 x (hash_way this))"
        by blast
      then show ?thesis unfolding e1 e2 .
    qed
    with here show ?thesis by simp
  qed
qed

lemma gather_loop_Inr_ready:
  assumes "gather_loop this s = Some (Inr g)"
  shows "gather_ready this s"
proof -
  from assms obtain s' any where p: "gather_pass this s = Some (Inr (s', any))"
    by (subst (asm) gather_loop.simps) (auto split: option.splits sum.splits)
  from gather_from_Inr_ready[OF p[unfolded gather_pass_def]] show ?thesis
    by (simp add: gather_ready_def)
qed

lemma synchronize_Inr_ready:
  assumes "synchronize L this s = Some (Inr s')"
  shows "\<not> sync_lock s" "gather_ready this s"
proof -
  from assms obtain g where f: "\<not> sync_lock s"
    and g: "gather_loop this (s\<lparr>sync_lock := True\<rparr>) = Some (Inr g)"
    by (rule synchronize_Inr)
  show "\<not> sync_lock s" by (rule f)
  from gather_loop_Inr_ready[OF g] show "gather_ready this s"
    by (simp add: gather_ready_relock)
qed

text \<open>
  Claim C1, amended: a \<^verbatim>\<open>synchronize()\<close> on a \<^verbatim>\<open>tsc_logged_object\<close> whose sync lock is
  free and whose cached ways are tagged and unlocked returns; and for every
  \<^verbatim>\<open>synchronize()\<close> that returns, the operations \<^verbatim>\<open>flush_finish\<close> executed form a single
  sequence that is ascending (non-decreasing) in timestamp and holds exactly the
  operations of the pending and the gathered per-CPU loggers; the operations of one
  logger run in the order in which \<^verbatim>\<open>std::sort\<close> left them (a subsequence of the
  executed sequence).
\<close>

theorem synchronize_runs_in_timestamp_order:
  fixes s :: "('cb, 'z) tsc_logged_object_scheme"
  assumes "stdlib_ok L"
  shows "(\<not> sync_lock s \<and> gather_ready this s \<longrightarrow> (\<exists>s'. synchronize L this s = Some (Inr s'))) \<and>
         (\<forall>s'. synchronize L this s = Some (Inr s') \<longrightarrow>
            (\<exists>merged.
               ran s' = ran s @ merged \<and> sorted (map tsc merged) \<and>
               mset merged = mset (concat (map ops (pending s @ gathered this s))) \<and>
               (\<forall>l \<in> set (pending s @ gathered this s).
                  subseq (std_sort L compare_tsc (ops l)) merged)))"
proof (intro conjI allI impI)
  assume "\<not> sync_lock s \<and> gather_ready this s"
  with synchronize_order_lemma[OF assms, of s this]
  show "\<exists>s'. synchronize L this s = Some (Inr s')" by blast
next
  fix s' assume r: "synchronize L this s = Some (Inr s')"
  from synchronize_order_lemma[OF assms synchronize_Inr_ready[OF r]] r
  show "\<exists>merged.
               ran s' = ran s @ merged \<and> sorted (map tsc merged) \<and>
               mset merged = mset (concat (map ops (pending s @ gathered this s))) \<and>
               (\<forall>l \<in> set (pending s @ gathered this s).
                  subseq (std_sort L compare_tsc (ops l)) merged)"
    by auto
qed

text \<open>The theorem on \<open>obj0\<close>: the operations run in the order 5, 10, 15.\<close>

theorem synchronize_runs_in_timestamp_order_witness:
  "stdlib_ok (lib_stable :: nat stdlib) \<and> \<not> sync_lock obj0 \<and> gather_ready this0 obj0 \<and>
   ran_of (synchronize lib_stable this0 obj0) = Some [Op 5 0, Op 10 1, Op 15 2] \<and>
   (\<exists>s' merged.
      synchronize lib_stable this0 obj0 = Some (Inr s') \<and> ran s' = ran obj0 @ merged \<and>
      sorted (map tsc merged) \<and>
      mset merged = mset (concat (map ops (pending obj0 @ gathered this0 obj0))) \<and>
      (\<forall>l \<in> set (pending obj0 @ gathered this0 obj0). subseq (std_sort lib_stable compare_tsc (ops l)) merged))"
proof -
  have h1: "stdlib_ok (lib_stable :: nat stdlib)" by (rule lib_stable_ok)
  have h2: "\<not> sync_lock obj0" by (simp add: obj0_def)
  have h3: "gather_ready this0 obj0" by (rule obj0_ready)
  have e: "ran_of (synchronize lib_stable this0 obj0) = Some [Op 5 0, Op 10 1, Op 15 2]"
    by code_simp
  note t = synchronize_runs_in_timestamp_order[OF h1, of obj0 this0]
  from t h2 h3 obtain s' where s': "synchronize lib_stable this0 obj0 = Some (Inr s')" by blast
  with t h1 h2 h3 e show ?thesis by blast
qed

text \<open>
  Claim C1 as stated fails in its second half: of 17 operations that one CPU pushed with
  the same timestamp, the one pushed ninth runs first and the one pushed first runs
  tenth. (With a single logger the queue of the merge holds one cursor, which is its
  top.)
\<close>

theorem synchronize_insertion_order_counterexample:
  "stdlib_ok (lib_gcc :: nat stdlib) \<and> \<not> sync_lock obj_ties \<and> gather_ready this0 obj_ties \<and>
   map ops (gathered this0 obj_ties) =
     [ [Op 4 0, Op 4 1, Op 4 2, Op 4 3, Op 4 4, Op 4 5, Op 4 6, Op 4 7, Op 4 8,
        Op 4 9, Op 4 10, Op 4 11, Op 4 12, Op 4 13, Op 4 14, Op 4 15, Op 4 16] ] \<and>
   ran_of (synchronize lib_gcc this0 obj_ties) =
     Some [Op 4 8, Op 4 16, Op 4 15, Op 4 14, Op 4 13, Op 4 12, Op 4 11, Op 4 10, Op 4 9,
           Op 4 0, Op 4 7, Op 4 6, Op 4 5, Op 4 4, Op 4 3, Op 4 2, Op 4 1]"
proof -
  have "map ops (gathered this0 obj_ties) =
     [ [Op 4 0, Op 4 1, Op 4 2, Op 4 3, Op 4 4, Op 4 5, Op 4 6, Op 4 7, Op 4 8,
        Op 4 9, Op 4 10, Op 4 11, Op 4 12, Op 4 13, Op 4 14, Op 4 15, Op 4 16] ]" by code_simp
  moreover have "ran_of (synchronize lib_gcc this0 obj_ties) =
     Some [Op 4 8, Op 4 16, Op 4 15, Op 4 14, Op 4 13, Op 4 12, Op 4 11, Op 4 10, Op 4 9,
           Op 4 0, Op 4 7, Op 4 6, Op 4 5, Op 4 4, Op 4 3, Op 4 2, Op 4 1]" by code_simp
  moreover have "\<not> sync_lock obj_ties" by (simp add: obj_ties_def)
  ultimately show ?thesis using lib_gcc_ok obj_ties_ready by blast
qed

text \<open>
  Claim C8 says that \<^verbatim>\<open>pending_\<close> is empty when \<^verbatim>\<open>flush_finish\<close> returns, also when it
  holds only loggers without operations. There the second early return
  (\<^verbatim>\<open>if (posns.empty()) return;\<close>) leaves \<^verbatim>\<open>pending_\<close> as it was.
\<close>

theorem flush_finish_keeps_empty_loggers:
  "flush_finish L (s\<lparr>pending := [\<lparr>ops = []\<rparr>]\<rparr>) = Inr (s\<lparr>pending := [\<lparr>ops = []\<rparr>]\<rparr>)"
  by (rule flush_finish_empty_loggers) simp

text \<open>
  Claim C9: when \<^verbatim>\<open>synchronize\<close> has returned and the caller has dropped the guard, a
  second \<^verbatim>\<open>synchronize\<close> with no \<^verbatim>\<open>get_logger\<close> in between returns the very state the
  first one returned: it runs no logged operation (\<open>ran\<close>) and leaves \<^verbatim>\<open>cpus_\<close>,
  \<^verbatim>\<open>pending_\<close> and the cache as they were.
\<close>

theorem synchronize_twice:
  assumes "synchronize L this s = Some (Inr s1)"
  shows "synchronize L this (s1\<lparr>sync_lock := False\<rparr>) = Some (Inr s1)"
  using assms by (rule synchronize_twice_lemma)

text \<open>The theorem on \<open>obj0\<close>.\<close>

theorem synchronize_twice_witness:
  "\<exists>s1. synchronize lib_stable this0 obj0 = Some (Inr s1) \<and>
        ran s1 = [Op 5 0, Op 10 1, Op 15 2] \<and>
        synchronize lib_stable this0 (s1\<lparr>sync_lock := False\<rparr>) = Some (Inr s1)"
proof -
  from synchronize_order_lemma[OF lib_stable_ok _ obj0_ready]
  obtain s1 where s1: "synchronize lib_stable this0 obj0 = Some (Inr s1)"
    by (auto simp: obj0_def)
  have "ran_of (synchronize lib_stable this0 obj0) = Some [Op 5 0, Op 10 1, Op 15 2]"
    by code_simp
  with s1 have "ran s1 = [Op 5 0, Op 10 1, Op 15 2]" by (simp add: ran_of_def)
  with s1 synchronize_twice[OF s1] show ?thesis by blast
qed

section \<open>The destructor\<close>

lemma clear_cpu_ready:
  assumes "obj (cache s cpu (hash_way this)) = this" "\<not> lock (cache s cpu (hash_way this))"
  shows "clear_cpu this cpu s
           = Some (Inr (s\<lparr>cache := (cache s)(cpu := (cache s cpu)
                  (hash_way this := (cache s cpu (hash_way this))\<lparr>logger := reset (logger (cache s cpu (hash_way this)))\<rparr>))\<rparr>))"
  using assms by (simp add: clear_cpu_def Let_def spin_acquire_free)

lemma gather_ready_clear:
  "gather_ready this
     (s\<lparr>cache := (cache s)(cpu := (cache s cpu)
           (hash_way this := (cache s cpu (hash_way this))\<lparr>logger := l\<rparr>))\<rparr>)
   = gather_ready this s"
  by (auto simp: gather_ready_def)

lemma clear_from_ready:
  assumes "gather_ready this s" "\<forall>c \<in> set cs. c < length (cpus s)"
  shows "\<exists>s'. clear_from this cs s any = Some (Inr (s', any \<or> (\<exists>c \<in> set cs. cpus s ! c))) \<and>
              cpus s' = cpus s \<and> gather_ready this s'"
  using assms
proof (induction cs arbitrary: s any)
  case Nil
  then show ?case by simp
next
  case (Cons c cs)
  show ?case
  proof (cases "cpus s ! c")
    case False
    with Cons.IH[of s any] Cons.prems show ?thesis by simp
  next
    case True
    with Cons.prems have rdy: "obj (cache s c (hash_way this)) = this" "\<not> lock (cache s c (hash_way this))"
      by (simp_all add: gather_ready_def)
    define s1 where "s1 = s\<lparr>cache := (cache s)(c := (cache s c)
                  (hash_way this := (cache s c (hash_way this))\<lparr>logger := reset (logger (cache s c (hash_way this)))\<rparr>))\<rparr>"
    have g: "clear_cpu this c s = Some (Inr s1)"
      unfolding s1_def by (rule clear_cpu_ready[OF rdy])
    have r1: "gather_ready this s1" unfolding s1_def using Cons.prems(1) by (simp only: gather_ready_clear)
    have c1: "cpus s1 = cpus s" by (simp add: s1_def)
    from Cons.prems(2) c1 have "\<forall>x \<in> set cs. x < length (cpus s1)" by simp
    from Cons.IH[OF r1 this, of True] obtain s' where
      "clear_from this cs s1 True = Some (Inr (s', True))" "cpus s' = cpus s1" "gather_ready this s'"
      by auto
    with g True c1 show ?thesis by simp
  qed
qed

lemma clear_pass_ready:
  assumes "gather_ready this s" "set_cpus (cpus s) \<noteq> []"
  shows "\<exists>s'. clear_pass this s = Some (Inr (s', True)) \<and> cpus s' = cpus s \<and> gather_ready this s'"
proof -
  from assms(2) have "\<exists>c \<in> set [0..<length (cpus s)]. cpus s ! c"
    by (auto simp: set_cpus_def filter_empty_conv)
  with clear_from_ready[OF assms(1), of "[0..<length (cpus s)]" False] show ?thesis
    by (auto simp: clear_pass_def)
qed

lemma clear_loop_stuck:
  assumes "clear_loop this s = Some r"
  shows "\<not> (gather_ready this s \<and> set_cpus (cpus s) \<noteq> [])"
proof (rule clear_loop.raw_induct[where P = "\<lambda>this s r. \<not> (gather_ready this s \<and> set_cpus (cpus s) \<noteq> [])", OF _ assms])
  fix f :: "u64 \<Rightarrow> ('a, 'b) tsc_logged_object_scheme \<Rightarrow> (error + ('a, 'b) tsc_logged_object_scheme) option"
    and this s r
  assume IH: "\<And>this s r. f this s = Some r \<Longrightarrow> \<not> (gather_ready this s \<and> set_cpus (cpus s) \<noteq> [])"
    and eq: "(case clear_pass this s of None \<Rightarrow> None | Some (Inl e) \<Rightarrow> Some (Inl e)
        | Some (Inr (s', any)) \<Rightarrow> if \<not> any then Some (Inr s') else f this s') = Some r"
  show "\<not> (gather_ready this s \<and> set_cpus (cpus s) \<noteq> [])"
  proof
    assume a: "gather_ready this s \<and> set_cpus (cpus s) \<noteq> []"
    then obtain s' where p: "clear_pass this s = Some (Inr (s', True))"
      and c: "cpus s' = cpus s" and r: "gather_ready this s'"
      using clear_pass_ready[of this s] by blast
    from eq p have "f this s' = Some r" by simp
    from IH[OF this] r c a show False by simp
  qed
qed

lemma clear_loop_diverges:
  "gather_ready this s \<Longrightarrow> set_cpus (cpus s) \<noteq> [] \<Longrightarrow> clear_loop this s = None"
  using clear_loop_stuck[of this s] by (cases "clear_loop this s") auto

lemma clear_from_idle:
  assumes "\<And>c. c \<in> set cs \<Longrightarrow> \<not> cpus s ! c"
  shows "clear_from this cs s any = Some (Inr (s, any))"
  using assms
proof (induction cs)
  case Nil
  show ?case by simp
next
  case (Cons c cs)
  have "\<not> cpus s ! c" by (rule Cons.prems) simp
  moreover have "clear_from this cs s any = Some (Inr (s, any))"
    by (rule Cons.IH) (rule Cons.prems, simp)
  ultimately show ?case by simp
qed

lemma clear_loop_idle:
  assumes "set_cpus (cpus s) = []"
  shows "clear_loop this s = Some (Inr s)"
proof -
  have "clear_from this [0..<length (cpus s)] s False = Some (Inr (s, False))"
  proof (rule clear_from_idle)
    fix c assume c: "c \<in> set [0..<length (cpus s)]"
    from assms have "\<forall>i < length (cpus s). \<not> cpus s ! i" by (rule iffD1[OF set_cpus_empty_iff])
    moreover from c have "c < length (cpus s)" by simp
    ultimately show "\<not> cpus s ! c" by blast
  qed
  then show ?thesis
    by (subst clear_loop.simps) (simp add: clear_pass_def)
qed

lemma destroy_diverges:
  assumes "gather_ready this s" "set_cpus (cpus s) \<noteq> []" "\<not> sync_lock s"
  shows "destroy this s = None"
proof -
  have "gather_ready this (s\<lparr>pending := [], sync_lock := True\<rparr>)"
    using assms(1) by (simp add: gather_ready_def)
  moreover have "set_cpus (cpus (s\<lparr>pending := [], sync_lock := True\<rparr>)) \<noteq> []"
    using assms(2) by simp
  ultimately have "clear_loop this (s\<lparr>pending := [], sync_lock := True\<rparr>) = None"
    by (rule clear_loop_diverges)
  with assms(3) show ?thesis
    by (simp add: destroy_def clear_loggers_def spin_acquire_free)
qed

lemma destroy_no_cpus:
  assumes "set_cpus (cpus s) = []" "\<not> sync_lock s"
  shows "destroy this s = Some (Inr (s\<lparr>pending := []\<rparr>))"
proof -
  have "clear_loop this (s\<lparr>pending := [], sync_lock := True\<rparr>) = Some (Inr (s\<lparr>pending := [], sync_lock := True\<rparr>))"
    by (rule clear_loop_idle) (simp add: assms(1))
  with assms(2) show ?thesis
    by (simp add: destroy_def clear_loggers_def spin_acquire_free)
qed

text \<open>
  Claim C3 says that the destructor terminates and resets the logger of every way tagged
  for the object. \<^verbatim>\<open>clear_loggers\<close> never clears a bit of \<^verbatim>\<open>cpus_\<close> (the gather loop of
  \<^verbatim>\<open>synchronize\<close>, which it copies, does), so with one bit set its loop finds \<^verbatim>\<open>any\<close>
  true on every pass: on \<open>obj0\<close>, whose two CPUs hold loggers, the destructor does not
  return (\<open>destroy_diverges\<close> for every such object). With no bit set it returns
  (\<open>destroy_no_cpus\<close>).
\<close>

theorem destructor_never_returns: "destroy this0 obj0 = None"
  by (rule destroy_diverges[OF obj0_ready]) (simp_all add: obj0_def set_cpus_def)

section \<open>mfs\_logged\_object: the timestamp pairs\<close>

lemma update_tsc_cell: "update_tsc ts cell = \<lparr>tsc_value = ts, seq = seq cell + 2\<rparr>"
  by (simp add: update_tsc_def write_begin_def write_end_def Let_def)

text \<open>
  Claim C10: \<^verbatim>\<open>update_start_tsc(cpu, ts)\<close> changes \<^verbatim>\<open>mfs_start_tsc[cpu]\<close> only (the value
  becomes \<open>ts\<close>, the counter goes up by two), \<^verbatim>\<open>update_end_tsc(cpu, ts)\<close> changes
  \<^verbatim>\<open>mfs_end_tsc[cpu]\<close> only; \<^verbatim>\<open>cpus_\<close>, \<^verbatim>\<open>pending_\<close>, the sync lock, the cache with its
  ways and loggers, the trace of executed operations and the pair of every other CPU
  are as before.
\<close>

theorem update_tsc_frame:
  fixes s :: "('cb, 'z) mfs_logged_object_scheme"
  shows
  "update_start_tsc cpu ts s
     = s\<lparr>mfs_start_tsc := (mfs_start_tsc s)(cpu := \<lparr>tsc_value = ts, seq = seq (mfs_start_tsc s cpu) + 2\<rparr>)\<rparr> \<and>
   update_end_tsc cpu ts s
     = s\<lparr>mfs_end_tsc := (mfs_end_tsc s)(cpu := \<lparr>tsc_value = ts, seq = seq (mfs_end_tsc s cpu) + 2\<rparr>)\<rparr> \<and>
   cpus (update_start_tsc cpu ts s) = cpus s \<and> cpus (update_end_tsc cpu ts s) = cpus s \<and>
   pending (update_start_tsc cpu ts s) = pending s \<and> pending (update_end_tsc cpu ts s) = pending s \<and>
   sync_lock (update_start_tsc cpu ts s) = sync_lock s \<and> sync_lock (update_end_tsc cpu ts s) = sync_lock s \<and>
   cache (update_start_tsc cpu ts s) = cache s \<and> cache (update_end_tsc cpu ts s) = cache s \<and>
   ran (update_start_tsc cpu ts s) = ran s \<and> ran (update_end_tsc cpu ts s) = ran s \<and>
   mfs_end_tsc (update_start_tsc cpu ts s) = mfs_end_tsc s \<and>
   mfs_start_tsc (update_end_tsc cpu ts s) = mfs_start_tsc s \<and>
   (mfs_start_tsc (update_start_tsc cpu ts s))(cpu := c) = (mfs_start_tsc s)(cpu := c) \<and>
   (mfs_end_tsc (update_end_tsc cpu ts s))(cpu := c) = (mfs_end_tsc s)(cpu := c)"
  by (simp add: update_start_tsc_def update_end_tsc_def update_tsc_cell)

lemma wait_even_even: "cur AND 1 = 0 \<Longrightarrow> wait_even cur = Some cur"
  by (subst wait_even.simps) simp

lemma read_loop_quiet: "read_loop (seq cell) cell v = Some (seq cell, v)"
  by (subst read_loop.simps) (simp add: do_retry_def)

lemma scan_read_quiet:
  assumes "seq (mfs_start_tsc s i) AND 1 = 0" "seq (mfs_end_tsc s i) AND 1 = 0"
  shows "scan_read s i = Some (0, 0, seq (mfs_end_tsc s i))"
  using assms by (simp add: scan_read_def read_begin_def wait_even_even read_loop_quiet)

lemma scan_cpu_quiet:
  assumes "seq (mfs_start_tsc s i) AND 1 = 0" "seq (mfs_end_tsc s i) AND 1 = 0"
  shows "scan_cpu s i wait_tsc = Some ()"
  by (simp add: scan_cpu_def scan_read_quiet[OF assms])

text \<open>
  Claim C4 says that, with nobody writing, the scan compares the values last stored by
  \<^verbatim>\<open>update_start_tsc\<close> and \<^verbatim>\<open>update_end_tsc\<close> and waits exactly when
  \<open>end_tsc < start_tsc < wait_tsc\<close>. With nobody writing \<^verbatim>\<open>do_retry()\<close> is false at once,
  the bodies of the two \<^verbatim>\<open>while\<close> loops never run, and the scan compares the initial
  0 and 0: on \<open>mfs1\<close>, where 100 and 50 are stored for CPU 1, a scan with
  \<open>wait_tsc = 150\<close> does not wait (\<open>scan_read_quiet\<close>, \<open>scan_cpu_quiet\<close> in general).
\<close>

theorem wait_scan_compares_zero:
  "tsc_value (mfs_start_tsc mfs1 1) = 100 \<and> tsc_value (mfs_end_tsc mfs1 1) = 50 \<and>
   scan_read mfs1 1 = Some (0, 0, 2) \<and> scan_cpu mfs1 1 150 = Some ()"
  by (simp add: mfs1_def mfs0_def update_start_tsc_def update_end_tsc_def update_tsc_cell
        scan_read_quiet scan_cpu_quiet)

section \<open>What flush\_finish\_max\_timestamp runs and what it leaves\<close>

lemma scan_before_take:
  "sorted (map tsc xs) \<Longrightarrow> take (scan_before xs m) xs = filter (\<lambda>x. tsc x < m) xs"
proof (induction xs)
  case Nil
  then show ?case by simp
next
  case (Cons x xs)
  show ?case
  proof (cases "m \<le> tsc x")
    case True
    with Cons.prems have "\<forall>y \<in> set xs. \<not> tsc y < m" by (auto simp: not_less intro: order_trans)
    then have "filter (\<lambda>x. tsc x < m) xs = []" by (simp add: filter_empty_conv)
    with True show ?thesis by (simp add: not_less[symmetric])
  next
    case False
    with Cons show ?thesis by (simp add: not_le)
  qed
qed

lemma scan_before_drop:
  "sorted (map tsc xs) \<Longrightarrow> drop (scan_before xs m) xs = filter (\<lambda>x. m \<le> tsc x) xs"
proof (induction xs)
  case Nil
  then show ?case by simp
next
  case (Cons x xs)
  show ?case
  proof (cases "m \<le> tsc x")
    case True
    with Cons.prems have "\<forall>y \<in> set xs. m \<le> tsc y" by (auto intro: order_trans)
    then have "filter (\<lambda>x. m \<le> tsc x) xs = xs" by (simp add: filter_id_conv)
    with True show ?thesis by simp
  next
    case False
    with Cons show ?thesis by simp
  qed
qed

text \<open>A logger after \<^verbatim>\<open>ops_.erase(ops_.begin(), ops_before_max_tsc(m))\<close>.\<close>

definition erased :: "u64 \<Rightarrow> 'cb tsc_logger \<Rightarrow> 'cb tsc_logger" where
  "erased m l = l\<lparr>ops := drop (scan_before (ops l) m) (ops l)\<rparr>"

lemma collect_posns_max_pend:
  "collect_posns_max L m i ls = (ls', posns) \<Longrightarrow> ls' = map (sort_ops L) ls"
  by (induction ls arbitrary: i ls' posns)
     (auto simp: Let_def split: prod.splits if_splits)

lemma collect_posns_max_cursors:
  fixes L :: "'cb stdlib"
  assumes "std_sort_ok L" "collect_posns_max L m (length pre) ls = (ls', posns)"
  shows "(\<forall>p \<in> set posns. fresh_cursor (pre @ ls') p \<and> length pre \<le> fst (next_it p) \<and>
            fst (next_it p) < length pre + length ls' \<and>
            pos_logger p = fst (next_it p) \<and>
            snd (end_it p) = scan_before (ops ((pre @ ls') ! fst (next_it p))) m) \<and>
         (\<forall>j < length ls'. scan_before (ops (ls' ! j)) m \<noteq> 0 \<longrightarrow>
            (\<exists>p \<in> set posns. fst (next_it p) = length pre + j)) \<and>
         distinct (map pos_logger posns)"
  using assms(2)
proof (induction ls arbitrary: pre ls' posns)
  case Nil
  then show ?case by simp
next
  case (Cons l ls)
  obtain rest' ps where rec: "collect_posns_max L m (Suc (length pre)) ls = (rest', ps)"
    by (cases "collect_posns_max L m (Suc (length pre)) ls") auto
  define l' where "l' = sort_ops L l"
  define e where "e = scan_before (ops l') m"
  from Cons.prems rec have ls': "ls' = l' # rest'"
    and posns: "posns = (if 0 = e then ps
                  else \<lparr>next_it = (length pre, 0), end_it = (length pre, e), pos_logger = length pre\<rparr> # ps)"
    by (auto simp: l'_def e_def Let_def ops_before_max_tsc_def split: if_splits)
  note IH = Cons.IH[of "pre @ [l']" rest' ps, simplified, OF rec]
  have old: "fresh_cursor (pre @ ls') p \<and> length pre \<le> fst (next_it p) \<and>
            fst (next_it p) < length pre + length ls' \<and>
            pos_logger p = fst (next_it p) \<and>
            snd (end_it p) = scan_before (ops ((pre @ ls') ! fst (next_it p))) m"
    and old_gt: "Suc (length pre) \<le> pos_logger p" if "p \<in> set ps" for p
    using IH that by (auto simp: ls')
  have new: "fresh_cursor (pre @ ls') p \<and> length pre \<le> fst (next_it p) \<and>
            fst (next_it p) < length pre + length ls' \<and>
            pos_logger p = fst (next_it p) \<and>
            snd (end_it p) = scan_before (ops ((pre @ ls') ! fst (next_it p))) m"
    if "0 \<noteq> e" and p: "p = \<lparr>next_it = (length pre, 0), end_it = (length pre, e), pos_logger = length pre\<rparr>" for p
  proof -
    have "sorted (map tsc (ops l'))" using assms(1) by (simp add: l'_def sort_ops_sorted)
    moreover have "e \<le> length (ops l')" by (simp add: e_def scan_before_le)
    ultimately show ?thesis
      using that(1) by (simp add: p fresh_cursor_def cursor_ok_def ls' nth_append e_def)
  qed
  have part1: "\<forall>p \<in> set posns. fresh_cursor (pre @ ls') p \<and> length pre \<le> fst (next_it p) \<and>
            fst (next_it p) < length pre + length ls' \<and>
            pos_logger p = fst (next_it p) \<and>
            snd (end_it p) = scan_before (ops ((pre @ ls') ! fst (next_it p))) m"
    using old new by (auto simp: posns)
  have part2: "\<exists>p \<in> set posns. fst (next_it p) = length pre + j"
    if j: "j < length ls'" and ne: "scan_before (ops (ls' ! j)) m \<noteq> 0" for j
  proof (cases j)
    case 0
    with ne have "0 \<noteq> e" by (simp add: ls' e_def)
    then show ?thesis by (simp add: posns 0)
  next
    case (Suc k)
    with j ne have "k < length rest'" "scan_before (ops (rest' ! k)) m \<noteq> 0" by (simp_all add: ls')
    with IH obtain p where "p \<in> set ps" "fst (next_it p) = Suc (length pre + k)" by auto
    then show ?thesis by (auto simp: posns Suc)
  qed
  have part3: "distinct (map pos_logger posns)"
  proof -
    from IH have d: "distinct (map pos_logger ps)" by simp
    have "length pre \<notin> pos_logger ` set ps"
    proof
      assume "length pre \<in> pos_logger ` set ps"
      then obtain q where q: "q \<in> set ps" "pos_logger q = length pre" by auto
      from old_gt[OF q(1)] q(2) show False by simp
    qed
    with d show ?thesis by (simp add: posns)
  qed
  from part1 part2 part3 show ?case by blast
qed

lemma collect_posns_max_rest:
  fixes L :: "'cb stdlib"
  assumes "std_sort_ok L" "collect_posns_max L m (length pre) ls = (ls', posns)"
  shows "all_rest (pre @ ls') posns = filter_mset (\<lambda>x. tsc x < m) (mset (concat (map ops ls)))"
  using assms(2)
proof (induction ls arbitrary: pre ls' posns)
  case Nil
  then show ?case by (simp add: all_rest_def)
next
  case (Cons l ls)
  obtain rest' ps where rec: "collect_posns_max L m (Suc (length pre)) ls = (rest', ps)"
    by (cases "collect_posns_max L m (Suc (length pre)) ls") auto
  define l' where "l' = sort_ops L l"
  define e where "e = scan_before (ops l') m"
  from Cons.prems rec have ls': "ls' = l' # rest'"
    and posns: "posns = (if 0 = e then ps
                  else \<lparr>next_it = (length pre, 0), end_it = (length pre, e), pos_logger = length pre\<rparr> # ps)"
    by (auto simp: l'_def e_def Let_def ops_before_max_tsc_def split: if_splits)
  from Cons.IH[of "pre @ [l']" rest' ps, simplified, OF rec]
  have IH: "all_rest (pre @ l' # rest') ps = filter_mset (\<lambda>x. tsc x < m) (mset (concat (map ops ls)))" .
  have srt: "sorted (map tsc (ops l'))" using assms(1) by (simp add: l'_def sort_ops_sorted)
  have tk: "mset (take e (ops l')) = filter_mset (\<lambda>x. tsc x < m) (mset (ops l))"
  proof -
    have "mset (take e (ops l')) = filter_mset (\<lambda>x. tsc x < m) (mset (ops l'))"
      unfolding e_def scan_before_take[OF srt] by simp
    also have "mset (ops l') = mset (ops l)" using assms(1) by (simp add: l'_def sort_ops_mset)
    finally show ?thesis .
  qed
  show ?case
  proof (cases "0 = e")
    case True
    with tk have "filter_mset (\<lambda>x. tsc x < m) (mset (ops l)) = {#}" by simp
    with True IH show ?thesis by (simp add: posns ls')
  next
    case False
    have "rest_of (pre @ l' # rest') \<lparr>next_it = (length pre, 0), end_it = (length pre, e), pos_logger = length pre\<rparr>
          = take e (ops l')"
      by (simp add: rest_of_def)
    with False IH tk show ?thesis by (simp add: posns ls' all_rest_def)
  qed
qed

lemma erase_consumed_nth:
  assumes "distinct (map pos_logger posns)"
    "\<forall>p \<in> set posns. pos_logger p < length pend \<and>
        snd (end_it p) = scan_before (ops (pend ! pos_logger p)) m"
  shows "length (erase_consumed posns pend) = length pend \<and>
         (\<forall>j < length pend. erase_consumed posns pend ! j
            = (if j \<in> pos_logger ` set posns then erased m (pend ! j) else pend ! j))"
  using assms
proof (induction posns arbitrary: pend)
  case Nil
  then show ?case by simp
next
  case (Cons p ps)
  define j0 where "j0 = pos_logger p"
  define pend1 where "pend1 = pend[j0 := erased m (pend ! j0)]"
  from Cons.prems have j0: "j0 < length pend" "snd (end_it p) = scan_before (ops (pend ! j0)) m"
    and nj: "j0 \<notin> pos_logger ` set ps" and d: "distinct (map pos_logger ps)"
    by (auto simp: j0_def)
  have step: "erase_consumed (p # ps) pend = erase_consumed ps pend1"
    by (simp add: pend1_def j0_def[symmetric] j0(2) erased_def)
  have pre: "\<forall>q \<in> set ps. pos_logger q < length pend1 \<and>
        snd (end_it q) = scan_before (ops (pend1 ! pos_logger q)) m"
  proof
    fix q assume q: "q \<in> set ps"
    with nj have "pos_logger q \<noteq> j0" by auto
    then have "pend1 ! pos_logger q = pend ! pos_logger q" by (simp add: pend1_def)
    with Cons.prems(2) q show "pos_logger q < length pend1 \<and>
        snd (end_it q) = scan_before (ops (pend1 ! pos_logger q)) m"
      by (simp add: pend1_def)
  qed
  from Cons.IH[OF d pre] have
    len: "length (erase_consumed ps pend1) = length pend1"
    and nth: "\<And>j. j < length pend1 \<Longrightarrow> erase_consumed ps pend1 ! j
            = (if j \<in> pos_logger ` set ps then erased m (pend1 ! j) else pend1 ! j)"
    by blast+
  have lp: "length pend1 = length pend" by (simp add: pend1_def)
  have "erase_consumed ps pend1 ! j
            = (if j \<in> pos_logger ` set (p # ps) then erased m (pend ! j) else pend ! j)"
    if j: "j < length pend" for j
  proof (cases "j = j0")
    case True
    have "erase_consumed ps pend1 ! j0 = pend1 ! j0"
      using nth[of j0] j0(1) nj lp by simp
    also have "pend1 ! j0 = erased m (pend ! j0)" using j0(1) by (simp add: pend1_def)
    finally show ?thesis using True by (simp add: j0_def)
  next
    case False
    then have "pend1 ! j = pend ! j" by (simp add: pend1_def)
    moreover have "j \<in> pos_logger ` set (p # ps) \<longleftrightarrow> j \<in> pos_logger ` set ps"
      using False by (auto simp: j0_def)
    ultimately show ?thesis using nth[of j] j lp by simp
  qed
  with len lp show ?case unfolding step by simp
qed

text \<open>
  What is left of a pending logger for a later sync: its operations with a timestamp of
  at least \<open>m\<close>, in the order in which \<^verbatim>\<open>sort_ops\<close> left them.
\<close>

definition deferred :: "'cb stdlib \<Rightarrow> u64 \<Rightarrow> 'cb tsc_logger \<Rightarrow> 'cb tsc_logger" where
  "deferred L m l = l\<lparr>ops := filter (\<lambda>x. m \<le> tsc x) (std_sort L compare_tsc (ops l))\<rparr>"

lemma erased_sort_ops:
  "std_sort_ok L \<Longrightarrow> erased m (sort_ops L l) = deferred L m l"
  using scan_before_drop[OF sort_ops_sorted, of L l m]
  by (simp add: erased_def deferred_def sort_ops_def)

lemma erased_none: "scan_before (ops l) m = 0 \<Longrightarrow> erased m l = l"
  by (simp add: erased_def)

lemma flush_finish_max_timestamp_result:
  fixes s :: "('cb, 'z) tsc_logged_object_scheme"
  assumes ok: "stdlib_ok L"
  shows "\<exists>merged.
           flush_finish_max_timestamp L m s
             = Inr (s\<lparr>ran := ran s @ merged,
                      pending := filter (\<lambda>l. ops l \<noteq> [] \<or> merged = []) (map (deferred L m) (pending s))\<rparr>) \<and>
           sorted (map tsc merged) \<and>
           mset merged = filter_mset (\<lambda>x. tsc x < m) (mset (concat (map ops (pending s))))"
proof (cases "pending s = []")
  case True
  then have "flush_finish_max_timestamp L m s = Inr s" by (simp add: flush_finish_max_timestamp_def)
  moreover have "s\<lparr>ran := ran s @ [], pending := []\<rparr> = s" using True by simp
  ultimately show ?thesis using True by (intro exI[of _ "[]"]) simp
next
  case ne: False
  from ok have so: "std_sort_ok L" and po: "pq_top_ok L" by (simp_all add: stdlib_ok_def)
  obtain pend posns where c: "collect_posns_max L m 0 (pending s) = (pend, posns)"
    by (cases "collect_posns_max L m 0 (pending s)") auto
  have c': "collect_posns_max L m (length ([] :: 'cb tsc_logger list)) (pending s) = (pend, posns)"
    using c by simp
  have pend: "pend = map (sort_ops L) (pending s)" by (rule collect_posns_max_pend[OF c])
  note cur = collect_posns_max_cursors[OF so c', simplified]
  from cur have fresh: "\<forall>p \<in> set posns. fresh_cursor pend p"
    and lg: "\<And>p. p \<in> set posns \<Longrightarrow> pos_logger p < length pend \<and>
                snd (end_it p) = scan_before (ops (pend ! pos_logger p)) m"
    and has: "\<And>j. j < length pend \<Longrightarrow> scan_before (ops (pend ! j)) m \<noteq> 0
                \<Longrightarrow> \<exists>p \<in> set posns. pos_logger p = j"
    and dist: "distinct (map pos_logger posns)"
    by auto
  note rest = collect_posns_max_rest[OF so c', simplified]
  have keep: "map (erased m) pend = map (deferred L m) (pending s)"
    by (simp add: pend erased_sort_ops[OF so])
  show ?thesis
  proof (cases "posns = []")
    case True
    have "erased m l = l" if "l \<in> set pend" for l
    proof -
      from that obtain j where "j < length pend" "l = pend ! j" by (auto simp: in_set_conv_nth)
      with has[of j] True have "scan_before (ops l) m = 0" by auto
      then show ?thesis by (rule erased_none)
    qed
    then have "map (erased m) pend = pend" by (simp add: map_idI)
    with keep have k: "map (deferred L m) (pending s) = pend" by simp
    have "flush_finish_max_timestamp L m s = Inr (s\<lparr>pending := pend\<rparr>)"
      using ne c True by (simp add: flush_finish_max_timestamp_def)
    moreover have "filter_mset (\<lambda>x. tsc x < m) (mset (concat (map ops (pending s)))) = {#}"
      using rest True by (simp add: all_rest_def)
    ultimately show ?thesis
      by (intro exI[of _ "[]"]) (simp add: k)
  next
    case pne: False
    from merge_from_fresh[OF po fresh] obtain merged where
      r: "merge_ops L pend (seq_vector (length posns)) posns []
            = Inr (map (\<lambda>p. p\<lparr>next_it := end_it p\<rparr>) posns, merged)"
      and srt: "sorted (map tsc merged)"
      and m: "mset merged = all_rest pend posns"
      by blast
    define posns' where "posns' = map (\<lambda>p. p\<lparr>next_it := end_it p\<rparr>) posns"
    have lg': "map pos_logger posns' = map pos_logger posns" by (simp add: posns'_def)
    have d': "distinct (map pos_logger posns')" using dist by (simp only: lg')
    have pre': "\<forall>p \<in> set posns'. pos_logger p < length pend \<and>
        snd (end_it p) = scan_before (ops (pend ! pos_logger p)) m"
      using lg by (auto simp: posns'_def)
    from erase_consumed_nth[OF d' pre'] have
      len: "length (erase_consumed posns' pend) = length pend"
      and nth: "\<And>j. j < length pend \<Longrightarrow> erase_consumed posns' pend ! j
            = (if j \<in> pos_logger ` set posns' then erased m (pend ! j) else pend ! j)"
      by blast+
    have img: "pos_logger ` set posns' = pos_logger ` set posns"
      using lg' by (metis list.set_map)
    have er: "erase_consumed posns' pend = map (erased m) pend"
    proof (rule nth_equalityI)
      show "length (erase_consumed posns' pend) = length (map (erased m) pend)" by (simp add: len)
      fix j assume "j < length (erase_consumed posns' pend)"
      then have j: "j < length pend" by (simp add: len)
      show "erase_consumed posns' pend ! j = map (erased m) pend ! j"
      proof (cases "j \<in> pos_logger ` set posns")
        case True
        with nth[OF j] j show ?thesis by (simp add: img)
      next
        case False
        with has[OF j] have "scan_before (ops (pend ! j)) m = 0" by auto
        from erased_none[OF this] nth[OF j] False j show ?thesis by (simp add: img)
      qed
    qed
    from pne obtain p ps where pp: "posns = p # ps" by (cases posns) auto
    with fresh have "fresh_cursor pend p" by simp
    then have "rest_of pend p \<noteq> []"
      using cursor_step(3)[of pend p] by (simp add: fresh_cursor_def)
    then have "all_rest pend posns \<noteq> {#}" by (simp add: pp all_rest_def)
    with m have mne: "merged \<noteq> []" by auto
    have "flush_finish_max_timestamp L m s
            = Inr (s\<lparr>ran := ran s @ merged,
                     pending := filter (\<lambda>l. ops l \<noteq> []) (erase_consumed posns' pend)\<rparr>)"
      using ne c pne r srt
      by (simp add: flush_finish_max_timestamp_def is_sorted_iff posns'_def)
    with mne srt m rest show ?thesis
      by (intro exI[of _ merged]) (simp add: er keep)
  qed
qed

lemma ops_deferred:
  assumes "std_sort_ok L"
  shows "mset (concat (map ops (map (deferred L m) ls)))
         = filter_mset (\<lambda>x. m \<le> tsc x) (mset (concat (map ops ls)))"
proof (induction ls)
  case Nil
  show ?case by simp
next
  case (Cons l ls)
  have "mset (std_sort L compare_tsc (ops l)) = mset (ops l)"
    using assms by (simp add: std_sort_ok_def)
  then have "filter_mset (\<lambda>x. m \<le> tsc x) (mset (std_sort L compare_tsc (ops l)))
             = filter_mset (\<lambda>x. m \<le> tsc x) (mset (ops l))"
    by simp
  then have "mset (ops (deferred L m l)) = filter_mset (\<lambda>x. m \<le> tsc x) (mset (ops l))"
    by (simp add: deferred_def)
  with Cons show ?case by simp
qed

lemma ops_without_empty:
  "mset (concat (map ops (filter (\<lambda>l. ops l \<noteq> [] \<or> b) ls))) = mset (concat (map ops ls))"
  by (induction ls) auto

text \<open>
  Claim C2: for every object and every \<open>max_tsc\<close>, \<^verbatim>\<open>flush_finish_max_timestamp(max_tsc)\<close>
  returns; it runs exactly the pending operations whose timestamp is below \<open>max_tsc\<close>, in
  ascending timestamp order; every pending logger keeps exactly its operations with a
  timestamp of at least \<open>max_tsc\<close> (the others are erased from it), these are all still
  in \<^verbatim>\<open>pending_\<close>, and when something was run no logger without operations is left in
  \<^verbatim>\<open>pending_\<close>. Nothing else of the object changes.
\<close>

theorem flush_finish_max_timestamp_partial_flush:
  fixes s :: "('cb, 'z) tsc_logged_object_scheme"
  assumes "stdlib_ok L"
  shows "\<exists>s' merged.
           flush_finish_max_timestamp L max_tsc s = Inr s' \<and>
           ran s' = ran s @ merged \<and> sorted (map tsc merged) \<and>
           mset merged = filter_mset (\<lambda>x. tsc x < max_tsc) (mset (concat (map ops (pending s)))) \<and>
           pending s' = filter (\<lambda>l. ops l \<noteq> [] \<or> merged = []) (map (deferred L max_tsc) (pending s)) \<and>
           (\<forall>l \<in> set (pending s'). \<forall>x \<in> set (ops l). max_tsc \<le> tsc x) \<and>
           mset (concat (map ops (pending s')))
             = filter_mset (\<lambda>x. max_tsc \<le> tsc x) (mset (concat (map ops (pending s)))) \<and>
           (merged \<noteq> [] \<longrightarrow> (\<forall>l \<in> set (pending s'). ops l \<noteq> [])) \<and>
           cpus s' = cpus s \<and> cache s' = cache s \<and> sync_lock s' = sync_lock s"
proof -
  from assms have so: "std_sort_ok L" by (simp add: stdlib_ok_def)
  from flush_finish_max_timestamp_result[OF assms, of max_tsc s] obtain merged where
    r: "flush_finish_max_timestamp L max_tsc s
          = Inr (s\<lparr>ran := ran s @ merged,
                   pending := filter (\<lambda>l. ops l \<noteq> [] \<or> merged = []) (map (deferred L max_tsc) (pending s))\<rparr>)"
    and srt: "sorted (map tsc merged)"
    and m: "mset merged = filter_mset (\<lambda>x. tsc x < max_tsc) (mset (concat (map ops (pending s))))"
    by blast
  define s' where "s' = s\<lparr>ran := ran s @ merged,
                   pending := filter (\<lambda>l. ops l \<noteq> [] \<or> merged = []) (map (deferred L max_tsc) (pending s))\<rparr>"
  have p: "pending s' = filter (\<lambda>l. ops l \<noteq> [] \<or> merged = []) (map (deferred L max_tsc) (pending s))"
    by (simp add: s'_def)
  have a: "\<forall>l \<in> set (pending s'). \<forall>x \<in> set (ops l). max_tsc \<le> tsc x"
    unfolding p by (auto simp: deferred_def)
  have b: "mset (concat (map ops (pending s')))
             = filter_mset (\<lambda>x. max_tsc \<le> tsc x) (mset (concat (map ops (pending s))))"
    unfolding p by (simp only: ops_without_empty ops_deferred[OF so])
  have c: "merged \<noteq> [] \<longrightarrow> (\<forall>l \<in> set (pending s'). ops l \<noteq> [])"
    unfolding p by auto
  have "flush_finish_max_timestamp L max_tsc s = Inr s'" "ran s' = ran s @ merged"
    "cpus s' = cpus s" "cache s' = cache s" "sync_lock s' = sync_lock s"
    using r by (simp_all add: s'_def)
  with srt m p a b c show ?thesis by blast
qed

text \<open>The theorem on \<open>obj_pending\<close> with \<open>max_tsc = 11\<close>: 3, 5, 10, 10 run, 15 stays.\<close>

theorem flush_finish_max_timestamp_partial_flush_witness:
  "stdlib_ok (lib_stable :: nat stdlib) \<and>
   flushed (flush_finish_max_timestamp lib_stable 11 obj_pending)
     = Some ([Op 3 9, Op 5 0, Op 10 1, Op 10 7], [\<lparr>ops = [Op 15 2]\<rparr>]) \<and>
   (\<exists>s' merged.
      flush_finish_max_timestamp lib_stable 11 obj_pending = Inr s' \<and>
      ran s' = ran obj_pending @ merged \<and> sorted (map tsc merged) \<and>
      mset merged = filter_mset (\<lambda>x. tsc x < 11) (mset (concat (map ops (pending obj_pending)))) \<and>
      pending s' = filter (\<lambda>l. ops l \<noteq> [] \<or> merged = []) (map (deferred lib_stable 11) (pending obj_pending)) \<and>
      (\<forall>l \<in> set (pending s'). \<forall>x \<in> set (ops l). 11 \<le> tsc x) \<and>
      mset (concat (map ops (pending s')))
        = filter_mset (\<lambda>x. 11 \<le> tsc x) (mset (concat (map ops (pending obj_pending)))) \<and>
      (merged \<noteq> [] \<longrightarrow> (\<forall>l \<in> set (pending s'). ops l \<noteq> [])) \<and>
      cpus s' = cpus obj_pending \<and> cache s' = cache obj_pending \<and> sync_lock s' = sync_lock obj_pending)"
proof -
  have h: "stdlib_ok (lib_stable :: nat stdlib)" by (rule lib_stable_ok)
  have e: "flushed (flush_finish_max_timestamp lib_stable 11 obj_pending)
     = Some ([Op 3 9, Op 5 0, Op 10 1, Op 10 7], [\<lparr>ops = [Op 15 2]\<rparr>])"
    by code_simp
  from flush_finish_max_timestamp_partial_flush[OF h, of 11 obj_pending] h e show ?thesis
    by blast
qed

end
